theory Spec2Isabelle
  imports Main "HOL-Library.Word"
begin

section \<open>JavaScript strings\<close>

text \<open>
  A JavaScript string is a sequence of UTF-16 code units. Literals of the source are
  written with \<open>js\<close>, which maps each character of an ASCII literal to its code unit.
\<close>

type_synonym jsstring = "16 word list"

definition js :: "string \<Rightarrow> jsstring" where
  "js s = map (\<lambda>c. of_nat (of_char c)) s"

section \<open>Space normalisation (PreserveSpacesExtension.ts)\<close>

text \<open>
  \<^verbatim>\<open>text.replace(/ {2,}/g, (match) => NBSP.repeat(match.length))\<close>, where \<open>NBSP\<close> is
  the one-character string U+00A0: the scan goes left to right; at each position the greedy
  quantifier takes the whole run of U+0020 that starts there; a run of length two or more
  is replaced by as many U+00A0 and the scan resumes after it, otherwise the scan moves one
  code unit on.
\<close>

definition SPACE :: "16 word" where "SPACE = 0x20"

definition NBSP :: "16 word" where "NBSP = 0xA0"

function replaceConsecutiveSpacesWithNbsp :: "jsstring \<Rightarrow> jsstring" where
  "replaceConsecutiveSpacesWithNbsp [] = []"
| "replaceConsecutiveSpacesWithNbsp (c # cs) =
     (let n = length (takeWhile (\<lambda>x. x = SPACE) (c # cs))
      in if 2 \<le> n
         then replicate n NBSP @ replaceConsecutiveSpacesWithNbsp (drop n (c # cs))
         else c # replaceConsecutiveSpacesWithNbsp cs)"
  by pat_completeness auto

termination
  by (relation "measure length") auto

text \<open>
  The same function as the specification words it: a code unit lies in a run of two or
  more plain spaces exactly when it is a plain space with a plain space next to it.
\<close>

definition inSpaceRun :: "jsstring \<Rightarrow> nat \<Rightarrow> bool" where
  "inSpaceRun xs i \<longleftrightarrow>
     xs ! i = SPACE \<and>
     ((0 < i \<and> xs ! (i - 1) = SPACE) \<or> (i + 1 < length xs \<and> xs ! (i + 1) = SPACE))"

definition normalizedSpaces :: "jsstring \<Rightarrow> jsstring" where
  "normalizedSpaces xs = map (\<lambda>i. if inSpaceRun xs i then NBSP else xs ! i) [0..<length xs]"

section \<open>The document tree\<close>

text \<open>
  The document is the tree of the host editing framework. A mark is either the comment
  mark (CommentMark.ts: name \<open>commentMark\<close>, one attribute \<open>commentId\<close>, a string or
  \<open>null\<close>) or a mark of another type, given by its name. Among the other types some
  exclude the comment mark (the inline \<open>code\<close> mark of the starter kit excludes every other
  mark); a mark of such a type is an \<open>ExcludingMark\<close>. The comment mark declares no
  \<open>excludes\<close>, so it excludes the marks of its own type and no other.
\<close>

datatype mark = CommentMark "jsstring option" | OtherMark jsstring | ExcludingMark jsstring

text \<open>
  A node is a text node (its text and marks), a leaf of another type (type name, whether it
  is inline, marks) or a node with content (type name, the \<open>level\<close> attribute, whether the
  type is a textblock, whether the type admits the comment mark on its inline children, and
  the children). The document itself is a node with content.
\<close>

datatype node =
    Text jsstring "mark list"
  | Leaf jsstring bool "mark list"
  | Elem jsstring "nat option" bool bool "node list"

fun isCommentMark :: "mark \<Rightarrow> bool" where
  "isCommentMark (CommentMark _) = True"
| "isCommentMark (OtherMark _) = False"
| "isCommentMark (ExcludingMark _) = False"

fun excludesCommentMark :: "mark \<Rightarrow> bool" where
  "excludesCommentMark (ExcludingMark _) = True"
| "excludesCommentMark (CommentMark _) = False"
| "excludesCommentMark (OtherMark _) = False"

fun children :: "node \<Rightarrow> node list" where
  "children (Elem ty lv tb al cs) = cs"
| "children _ = []"

text \<open>
  \<open>node.nodeSize\<close>: the length of a text node, one for any other leaf, the content plus the
  opening and the closing token otherwise. \<open>doc.content.size\<close> is \<open>contentSize\<close>.
\<close>

fun nodeSize :: "node \<Rightarrow> nat" where
  "nodeSize (Text s ms) = length s"
| "nodeSize (Leaf ty inl ms) = 1"
| "nodeSize (Elem ty lv tb al cs) = 2 + sum_list (map nodeSize cs)"

definition contentSize :: "node \<Rightarrow> nat" where
  "contentSize n = sum_list (map nodeSize (children n))"

text \<open>
  \<open>doc.descendants(f)\<close> calls \<open>f(node, pos)\<close> for every descendant in document order, a
  parent before its children; the first child of the document is at position 0, the first
  child of any other node one after its parent. The callbacks of the source return \<open>false\<close>
  (do not descend) at text nodes only, which have no children.
\<close>

fun nodesFrom :: "nat \<Rightarrow> node list \<Rightarrow> (node \<times> nat) list" where
  "nodesFrom pos [] = []"
| "nodesFrom pos (Text s ms # ns) = (Text s ms, pos) # nodesFrom (pos + length s) ns"
| "nodesFrom pos (Leaf ty inl ms # ns) = (Leaf ty inl ms, pos) # nodesFrom (pos + 1) ns"
| "nodesFrom pos (Elem ty lv tb al cs # ns) =
     (Elem ty lv tb al cs, pos) # nodesFrom (pos + 1) cs
       @ nodesFrom (pos + nodeSize (Elem ty lv tb al cs)) ns"

definition descendants :: "node \<Rightarrow> (node \<times> nat) list" where
  "descendants doc = nodesFrom 0 (children doc)"

text \<open>
  \<open>nodesBetween(from, to, f)\<close>: the nodes that overlap \<open>[from, to)\<close>. The loop over a
  list of siblings ends at the first sibling that starts at or after \<open>to\<close>; a sibling that
  ends at or before \<open>from\<close> is skipped. The callers in the source pass \<open>to\<close> within the
  document.
\<close>

fun nodesBetweenFrom :: "nat \<Rightarrow> nat \<Rightarrow> nat \<Rightarrow> node list \<Rightarrow> (node \<times> nat) list" where
  "nodesBetweenFrom from to pos [] = []"
| "nodesBetweenFrom from to pos (Text s ms # ns) =
     (if to \<le> pos then []
      else (if from < pos + length s then [(Text s ms, pos)] else [])
             @ nodesBetweenFrom from to (pos + length s) ns)"
| "nodesBetweenFrom from to pos (Leaf ty inl ms # ns) =
     (if to \<le> pos then []
      else (if from < pos + 1 then [(Leaf ty inl ms, pos)] else [])
             @ nodesBetweenFrom from to (pos + 1) ns)"
| "nodesBetweenFrom from to pos (Elem ty lv tb al cs # ns) =
     (if to \<le> pos then []
      else (if from < pos + nodeSize (Elem ty lv tb al cs)
            then (Elem ty lv tb al cs, pos) # nodesBetweenFrom from to (pos + 1) cs else [])
             @ nodesBetweenFrom from to (pos + nodeSize (Elem ty lv tb al cs)) ns)"

text \<open>\<open>s.slice(a, b)\<close> for \<open>0 \<le> a\<close> and \<open>0 \<le> b\<close>.\<close>

definition sliceStr :: "nat \<Rightarrow> nat \<Rightarrow> 'a list \<Rightarrow> 'a list" where
  "sliceStr a b s = drop a (take b s)"

text \<open>
  \<open>doc.textBetween(from, to, blockSeparator)\<close> runs \<open>nodesBetween\<close> with a callback that
  appends the part of a text node inside the range and puts the separator before every
  textblock but the first. Leaves of the schema carry no leaf text.
\<close>

fun textBetweenVisit :: "nat \<Rightarrow> nat \<Rightarrow> jsstring \<Rightarrow> node \<times> nat \<Rightarrow> jsstring \<times> bool \<Rightarrow> jsstring \<times> bool" where
  "textBetweenVisit from to sep (Text s ms, pos) (text, first) =
     (text @ sliceStr (max from pos - pos) (to - pos) s, first)"
| "textBetweenVisit from to sep (Leaf ty inl ms, pos) (text, first) = (text, first)"
| "textBetweenVisit from to sep (Elem ty lv tb al cs, pos) (text, first) =
     (if tb \<and> sep \<noteq> [] then (if first then (text, False) else (text @ sep, False))
      else (text, first))"

definition textBetween :: "node \<Rightarrow> nat \<Rightarrow> nat \<Rightarrow> jsstring \<Rightarrow> jsstring" where
  "textBetween doc from to sep =
     fst (fold (textBetweenVisit from to sep) (nodesBetweenFrom from to 0 (children doc)) ([], True))"

text \<open>Paragraphs and documents of the examples.\<close>

definition para :: "node list \<Rightarrow> node" where "para cs = Elem (js ''paragraph'') None True True cs"

definition docOf :: "node list \<Rightarrow> node" where "docOf cs = Elem (js ''doc'') None False False cs"

section \<open>Comments (comment.types.ts)\<close>

datatype commentType = Offset | NodePath | ContentSpan

record inlineReply =
  reply_id :: jsstring
  reply_author :: jsstring
  reply_text :: jsstring
  reply_createdAt :: int

text \<open>
  \<open>position.from\<close> and \<open>position.to\<close> are \<open>pos_from\<close> and \<open>pos_to\<close>; \<open>None\<close> is
  \<open>undefined\<close>. A \<open>Date\<close> is its time value.
\<close>

record commentPosition =
  textFragment :: "jsstring option"
  pos_from :: "int option"
  pos_to :: "int option"
  path :: "jsstring option"
  startOffset :: "int option"
  endOffset :: "int option"

record inlineComment =
  comment_id :: jsstring
  author :: jsstring
  comment_text :: jsstring
  createdAt :: int
  resolved :: bool
  comment_type :: commentType
  position :: "commentPosition option"
  replies :: "inlineReply list option"

section \<open>The synchronizer\<close>

text \<open>
  \<open>syncCommentPositionsWithEditorState\<close> (tiptap.utils). The scan fills the map
  \<open>currentMarksInDoc\<close>: for each text node and each of its comment marks with a truthy
  string \<open>commentId\<close>, the segment \<open>[pos, pos + nodeSize)\<close> is recorded or merged into the
  recorded one by \<open>Math.min\<close> and \<open>Math.max\<close>. Then every comment is mapped; the flag
  \<open>commentsStateChanged\<close> is raised by any comment that is rewritten.
\<close>

type_synonym markInfo = "jsstring \<rightharpoonup> nat \<times> nat"

fun recordMark :: "nat \<Rightarrow> nat \<Rightarrow> mark \<Rightarrow> markInfo \<Rightarrow> markInfo" where
  "recordMark segFrom segTo (CommentMark (Some commentId)) m =
     (if commentId = [] then m
      else case m commentId of
             None \<Rightarrow> m(commentId \<mapsto> (segFrom, segTo))
           | Some (exFrom, exTo) \<Rightarrow> m(commentId \<mapsto> (min exFrom segFrom, max exTo segTo)))"
| "recordMark segFrom segTo (CommentMark None) m = m"
| "recordMark segFrom segTo (OtherMark ty) m = m"
| "recordMark segFrom segTo (ExcludingMark ty) m = m"

fun scanNode :: "node \<times> nat \<Rightarrow> markInfo \<Rightarrow> markInfo" where
  "scanNode (Text s ms, pos) m = fold (recordMark pos (pos + nodeSize (Text s ms))) ms m"
| "scanNode (Leaf ty inl ms, pos) m = m"
| "scanNode (Elem ty lv tb al cs, pos) m = m"

definition currentMarksInDoc :: "node \<Rightarrow> markInfo" where
  "currentMarksInDoc editorDoc = fold scanNode (descendants editorDoc) Map.empty"

definition orphanedFragment :: "jsstring option \<Rightarrow> jsstring" where
  "orphanedFragment old =
     js ''[ORPHANED] '' @ (case old of None \<Rightarrow> js ''No original text''
                                | Some s \<Rightarrow> if s = [] then js ''No original text'' else s)"

definition isAlreadyOrphaned :: "inlineComment \<Rightarrow> bool" where
  "isAlreadyOrphaned comment =
     (case position comment of None \<Rightarrow> False | Some p \<Rightarrow> pos_from p = None)"

definition syncComment :: "node \<Rightarrow> markInfo \<Rightarrow> inlineComment \<Rightarrow> inlineComment \<times> bool" where
  "syncComment editorDoc marksInDoc comment =
     (if comment_id comment = [] then (comment, False)
      else case marksInDoc (comment_id comment) of
        Some (newFrom, newTo) \<Rightarrow>
          (let newTextFragment = textBetween editorDoc newFrom newTo (js '' '')
           in if isAlreadyOrphaned comment
                 \<or> (case position comment of
                       None \<Rightarrow> True
                     | Some oldPos \<Rightarrow>
                         pos_from oldPos \<noteq> Some (int newFrom)
                         \<or> pos_to oldPos \<noteq> Some (int newTo)
                         \<or> textFragment oldPos \<noteq> Some newTextFragment)
              then (comment\<lparr>position := Some \<lparr>textFragment = Some newTextFragment,
                       pos_from = Some (int newFrom), pos_to = Some (int newTo),
                       path = None, startOffset = None, endOffset = None\<rparr>\<rparr>, True)
              else (comment, False))
      | None \<Rightarrow>
          (case position comment of
             None \<Rightarrow> (comment, False)
           | Some oldPos \<Rightarrow>
               if \<not> isAlreadyOrphaned comment \<and> pos_from oldPos \<noteq> None
               then (comment\<lparr>position := Some \<lparr>textFragment = Some (orphanedFragment (textFragment oldPos)),
                        pos_from = None, pos_to = None,
                        path = None, startOffset = None, endOffset = None\<rparr>\<rparr>, True)
               else (comment, False)))"

definition syncCommentPositionsWithEditorState ::
    "node \<Rightarrow> inlineComment list \<Rightarrow> inlineComment list \<times> bool" where
  "syncCommentPositionsWithEditorState editorDoc prevComments =
     (if prevComments = [] then (prevComments, False)
      else let marksInDoc = currentMarksInDoc editorDoc;
               results = map (syncComment editorDoc marksInDoc) prevComments
           in (map fst results, list_ex snd results))"

text \<open>
  The runs of a marker: the extents of the text leaves that carry the comment mark with the
  given id, in document order; a document carries a marker when there is such a run. The
  coalesced range of a list of runs is \<open>[min of run starts, max of run ends)\<close>.
\<close>

fun markerRunsOf :: "jsstring \<Rightarrow> (node \<times> nat) list \<Rightarrow> (nat \<times> nat) list" where
  "markerRunsOf commentId [] = []"
| "markerRunsOf commentId ((Text s ms, pos) # nps) =
     (if CommentMark (Some commentId) \<in> set ms then [(pos, pos + length s)] else [])
       @ markerRunsOf commentId nps"
| "markerRunsOf commentId ((Leaf ty inl ms, pos) # nps) = markerRunsOf commentId nps"
| "markerRunsOf commentId ((Elem ty lv tb al cs, pos) # nps) = markerRunsOf commentId nps"

definition markerRuns :: "node \<Rightarrow> jsstring \<Rightarrow> (nat \<times> nat) list" where
  "markerRuns doc commentId = markerRunsOf commentId (descendants doc)"

definition carriesMarker :: "node \<Rightarrow> jsstring \<Rightarrow> bool" where
  "carriesMarker doc commentId \<longleftrightarrow> markerRuns doc commentId \<noteq> []"

definition coalesce :: "(nat \<times> nat) list \<Rightarrow> (nat \<times> nat) option" where
  "coalesce runs = (if runs = [] then None
                    else Some (Min (set (map fst runs)), Max (set (map snd runs))))"

text \<open>The synchronizer run once for each document of a sequence, in order.\<close>

definition syncRuns :: "node list \<Rightarrow> inlineComment list \<Rightarrow> inlineComment list" where
  "syncRuns docs comments = fold (\<lambda>d cs. fst (syncCommentPositionsWithEditorState d cs)) docs comments"

text \<open>One step of the merge the scan performs on a recorded range.\<close>

fun mergeRun :: "nat \<times> nat \<Rightarrow> (nat \<times> nat) option \<Rightarrow> (nat \<times> nat) option" where
  "mergeRun (f, t) None = Some (f, t)"
| "mergeRun (f, t) (Some (a, b)) = Some (min a f, max b t)"

text \<open>Comments and positions of the examples.\<close>

definition mkComment :: "jsstring \<Rightarrow> commentPosition option \<Rightarrow> inlineComment" where
  "mkComment commentId p =
     \<lparr>comment_id = commentId, author = js ''user-current'', comment_text = js ''note'',
      createdAt = 0, resolved = False, comment_type = Offset, position = p, replies = None\<rparr>"

definition offsetPosition :: "int \<Rightarrow> int \<Rightarrow> jsstring \<Rightarrow> commentPosition" where
  "offsetPosition f t frag =
     \<lparr>textFragment = Some frag, pos_from = Some f, pos_to = Some t,
      path = None, startOffset = None, endOffset = None\<rparr>"

definition orphanedPosition :: "jsstring \<Rightarrow> commentPosition" where
  "orphanedPosition frag =
     \<lparr>textFragment = Some frag, pos_from = None, pos_to = None,
      path = None, startOffset = None, endOffset = None\<rparr>"

section \<open>Loading persisted comments (loadCommentsFromStorage)\<close>

text \<open>
  The value \<open>JSON.parse\<close> returns. The payload of a number plays no part in the loader,
  which only asks for \<open>typeof\<close>.
\<close>

datatype json =
    JNull
  | JBool bool
  | JNum int
  | JStr jsstring
  | JArr "json list"
  | JObj "(jsstring \<times> json) list"

datatype jstype = TObject | TString | TNumber | TBoolean

text \<open>
  What the loader finds under the key: no \<open>window\<close> (server side), no item (or the empty
  string, which is falsy as well), a string \<open>JSON.parse\<close> throws on, or a parsed value.
\<close>

datatype stored = NoWindow | NoItem | Unparsable | Parsed json

fun typeof :: "json \<Rightarrow> jstype" where
  "typeof JNull = TObject"
| "typeof (JBool b) = TBoolean"
| "typeof (JNum n) = TNumber"
| "typeof (JStr s) = TString"
| "typeof (JArr vs) = TObject"
| "typeof (JObj kvs) = TObject"

fun truthy :: "json \<Rightarrow> bool" where
  "truthy JNull = False"
| "truthy (JBool b) = b"
| "truthy (JNum n) = (n \<noteq> 0)"
| "truthy (JStr s) = (s \<noteq> [])"
| "truthy (JArr vs) = True"
| "truthy (JObj kvs) = True"

text \<open>
  \<open>obj.key\<close>: \<open>None\<close> is \<open>undefined\<close>. Reading a property of \<open>null\<close> throws a TypeError, which
  is \<open>Inl ()\<close>; on any other value that does not have the property the result is
  \<open>undefined\<close>. None of the keys the loader reads is a built-in property of arrays,
  strings, numbers or booleans.
\<close>

fun getProp :: "json \<Rightarrow> jsstring \<Rightarrow> unit + json option" where
  "getProp JNull k = Inl ()"
| "getProp (JObj kvs) k = Inr (map_of kvs k)"
| "getProp v k = Inr None"

text \<open>
  \<open>key in obj\<close>, used by the loader only behind \<open>typeof obj === 'object' && obj !== null\<close>,
  so that the operand is an object or an array.
\<close>

fun hasProp :: "jsstring \<Rightarrow> json \<Rightarrow> bool" where
  "hasProp k (JObj kvs) = (map_of kvs k \<noteq> None)"
| "hasProp k v = False"

fun readProp :: "json \<Rightarrow> jsstring \<Rightarrow> json option" where
  "readProp (JObj kvs) k = map_of kvs k"
| "readProp v k = None"

record loadedPosition =
  ld_from :: "json option"
  ld_to :: "json option"
  ld_textFragment :: "json option"
  ld_path :: "json option"
  ld_startOffset :: "json option"
  ld_endOffset :: "json option"

text \<open>
  The object literal both loaders build: \<open>id\<close>, \<open>author\<close>, \<open>text\<close>, \<open>createdAt\<close> and
  \<open>position\<close>, nothing else. \<open>createdAt\<close> is \<open>new Date(x)\<close>, kept as its argument \<open>x\<close>.
\<close>

record loadedComment =
  ld_id :: "json option"
  ld_author :: "json option"
  ld_text :: "json option"
  ld_createdAt :: "json option"
  ld_position :: "loadedPosition option"

definition hasTyped :: "jsstring \<Rightarrow> jstype set \<Rightarrow> json \<Rightarrow> bool" where
  "hasTyped k tys v \<longleftrightarrow> hasProp k v \<and> (case readProp v k of Some x \<Rightarrow> typeof x \<in> tys | None \<Rightarrow> False)"

definition absentOrTyped :: "jsstring \<Rightarrow> jstype \<Rightarrow> json \<Rightarrow> bool" where
  "absentOrTyped k ty v \<longleftrightarrow> \<not> hasProp k v \<or> (case readProp v k of Some x \<Rightarrow> typeof x = ty | None \<Rightarrow> False)"

definition validPosition :: "json \<Rightarrow> bool" where
  "validPosition p \<longleftrightarrow>
     typeof p = TObject \<and> p \<noteq> JNull \<and>
     absentOrTyped (js ''from'') TNumber p \<and>
     absentOrTyped (js ''to'') TNumber p \<and>
     absentOrTyped (js ''textFragment'') TString p \<and>
     absentOrTyped (js ''path'') TString p \<and>
     absentOrTyped (js ''startOffset'') TNumber p \<and>
     absentOrTyped (js ''endOffset'') TNumber p"

definition validCommentData :: "json \<Rightarrow> bool" where
  "validCommentData commentData \<longleftrightarrow>
     typeof commentData = TObject \<and> commentData \<noteq> JNull \<and>
     hasTyped (js ''id'') {TString} commentData \<and>
     hasTyped (js ''author'') {TString} commentData \<and>
     hasTyped (js ''text'') {TString} commentData \<and>
     hasTyped (js ''createdAt'') {TString, TNumber} commentData \<and>
     (\<not> hasProp (js ''position'') commentData \<or>
      (case readProp commentData (js ''position'') of Some p \<Rightarrow> validPosition p | None \<Rightarrow> False))"

text \<open>
  \<open>typedCommentData.position ? {from: ..., ...} : undefined\<close>, on a value whose properties
  can be read without a throw.
\<close>

definition buildPosition :: "json option \<Rightarrow> loadedPosition option" where
  "buildPosition pv =
     (case pv of
        None \<Rightarrow> None
      | Some p \<Rightarrow>
          if truthy p
          then Some \<lparr>ld_from = readProp p (js ''from''), ld_to = readProp p (js ''to''),
                     ld_textFragment = readProp p (js ''textFragment''), ld_path = readProp p (js ''path''),
                     ld_startOffset = readProp p (js ''startOffset''), ld_endOffset = readProp p (js ''endOffset'')\<rparr>
          else None)"

definition buildComment :: "json \<Rightarrow> loadedComment" where
  "buildComment v =
     \<lparr>ld_id = readProp v (js ''id''), ld_author = readProp v (js ''author''), ld_text = readProp v (js ''text''),
      ld_createdAt = readProp v (js ''createdAt''),
      ld_position = buildPosition (readProp v (js ''position''))\<rparr>"

text \<open>
  The copy with validation (src/unnamed/part 001, lines 3 to 59). The callback of \<open>map\<close>
  returns the built object or \<open>null\<close>; \<open>filter\<close> drops the \<open>null\<close>s. Nothing in the callback
  can throw: every property is read from a value checked to be a non-null object.
\<close>

definition loadOne :: "json \<Rightarrow> loadedComment option" where
  "loadOne commentData = (if validCommentData commentData then Some (buildComment commentData) else None)"

fun loadCommentsFromStorage :: "stored \<Rightarrow> loadedComment list" where
  "loadCommentsFromStorage NoWindow = []"
| "loadCommentsFromStorage NoItem = []"
| "loadCommentsFromStorage Unparsable = []"
| "loadCommentsFromStorage (Parsed (JArr parsedComments)) =
     map the (filter (\<lambda>c. c \<noteq> None) (map loadOne parsedComments))"
| "loadCommentsFromStorage (Parsed v) = []"

text \<open>
  The copy without validation (src/unnamed/part 000, lines 215 to 252): the only test is
  \<open>typeof commentData === 'object'\<close>, which \<open>null\<close> passes; reading \<open>null.id\<close> then throws,
  the \<open>catch\<close> around the whole \<open>map\<close> takes over and the function returns \<open>[]\<close>.
\<close>

definition loadOne_unchecked :: "json \<Rightarrow> unit + loadedComment option" where
  "loadOne_unchecked commentData =
     (if typeof commentData = TObject
      then (case getProp commentData (js ''id'') of
              Inl e \<Rightarrow> Inl e
            | Inr i \<Rightarrow> Inr (Some (buildComment commentData)))
      else Inr None)"

fun collect :: "(unit + 'a option) list \<Rightarrow> unit + 'a list" where
  "collect [] = Inr []"
| "collect (Inl e # rs) = Inl e"
| "collect (Inr r # rs) =
     (case collect rs of
        Inl e \<Rightarrow> Inl e
      | Inr xs \<Rightarrow> Inr (case r of None \<Rightarrow> xs | Some x \<Rightarrow> x # xs))"

fun loadCommentsFromStorage_unchecked :: "stored \<Rightarrow> loadedComment list" where
  "loadCommentsFromStorage_unchecked NoWindow = []"
| "loadCommentsFromStorage_unchecked NoItem = []"
| "loadCommentsFromStorage_unchecked Unparsable = []"
| "loadCommentsFromStorage_unchecked (Parsed (JArr parsedComments)) =
     (case collect (map loadOne_unchecked parsedComments) of
        Inl e \<Rightarrow> []
      | Inr cs \<Rightarrow> cs)"
| "loadCommentsFromStorage_unchecked (Parsed v) = []"

text \<open>
  Structural validity as the specification words it: the record is an object with a
  string \<open>id\<close>, \<open>author\<close> and \<open>text\<close> and a string or number \<open>createdAt\<close>, and its
  \<open>position\<close>, when there is one, is an object (an array counts) in which \<open>from\<close>, \<open>to\<close>,
  \<open>startOffset\<close> and \<open>endOffset\<close>, when present, are numbers and \<open>textFragment\<close> and \<open>path\<close>,
  when present, strings.
\<close>

fun isString :: "json option \<Rightarrow> bool" where
  "isString (Some (JStr s)) = True"
| "isString v = False"

fun isNumber :: "json option \<Rightarrow> bool" where
  "isNumber (Some (JNum n)) = True"
| "isNumber v = False"

fun structurallyValidPosition :: "json \<Rightarrow> bool" where
  "structurallyValidPosition (JObj kvs) =
     (list_all (\<lambda>k. map_of kvs k = None \<or> isNumber (map_of kvs k))
        [js ''from'', js ''to'', js ''startOffset'', js ''endOffset''] \<and>
      list_all (\<lambda>k. map_of kvs k = None \<or> isString (map_of kvs k))
        [js ''textFragment'', js ''path''])"
| "structurallyValidPosition (JArr vs) = True"
| "structurallyValidPosition v = False"

fun structurallyValid :: "json \<Rightarrow> bool" where
  "structurallyValid (JObj kvs) =
     (isString (map_of kvs (js ''id'')) \<and> isString (map_of kvs (js ''author'')) \<and>
      isString (map_of kvs (js ''text'')) \<and>
      (isString (map_of kvs (js ''createdAt'')) \<or> isNumber (map_of kvs (js ''createdAt''))) \<and>
      (case map_of kvs (js ''position'') of None \<Rightarrow> True | Some p \<Rightarrow> structurallyValidPosition p))"
| "structurallyValid v = False"

definition validRecord :: json where
  "validRecord = JObj [(js ''id'', JStr (js ''c1'')), (js ''author'', JStr (js ''ann'')),
                       (js ''text'', JStr (js ''note'')), (js ''createdAt'', JNum 0),
                       (js ''position'', JObj [(js ''from'', JNum 1), (js ''to'', JNum 3),
                                               (js ''textFragment'', JStr (js ''ab''))])]"

section \<open>Adding and removing marks\<close>

text \<open>
  \<open>mark.addToSet(set)\<close>, for the comment mark, the only mark the source adds. The loop over
  the set returns the set as it is at a mark equal to the new one and at a mark whose type
  excludes the new one; a mark the new one excludes (another comment mark) is dropped. When
  the loop ends the new mark is added. The order of a mark set plays no part here.
\<close>

definition addToSet :: "mark \<Rightarrow> mark list \<Rightarrow> mark list" where
  "addToSet m ms =
     (if m \<in> set ms \<or> (isCommentMark m \<and> list_ex excludesCommentMark ms) then ms
      else filter (\<lambda>other. isCommentMark m \<longrightarrow> \<not> isCommentMark other) ms @ [m])"

definition removeCommentMarks :: "mark list \<Rightarrow> mark list" where
  "removeCommentMarks ms = filter (\<lambda>m. \<not> isCommentMark m) ms"

text \<open>
  \<open>tr.addMark(from, to, mark)\<close> and \<open>tr.removeMark(from, to, markType)\<close> change the marks
  of the inline leaves inside \<open>[from, to)\<close>; a text node that the range cuts is split at the
  cut. \<open>addMark\<close> passes over the children of a node whose type does not admit the mark
  (\<open>chk\<close>); \<open>removeMark\<close> with a mark type removes every mark of that type. Adjacent text
  nodes with equal marks are not joined again here: no function of the source
  distinguishes the two forms.
\<close>

definition textPiece :: "jsstring \<Rightarrow> mark list \<Rightarrow> node list" where
  "textPiece s ms = (if s = [] then [] else [Text s ms])"

fun markRange ::
    "(mark list \<Rightarrow> mark list) \<Rightarrow> bool \<Rightarrow> nat \<Rightarrow> nat \<Rightarrow> bool \<Rightarrow> nat \<Rightarrow> node list \<Rightarrow> node list" where
  "markRange g chk from to ok pos [] = []"
| "markRange g chk from to ok pos (Text s ms # ns) =
     (if ok \<and> from < pos + length s \<and> pos < to
      then textPiece (take (from - pos) s) ms
             @ textPiece (sliceStr (from - pos) (to - pos) s) (g ms)
             @ textPiece (drop (to - pos) s) ms
      else [Text s ms])
       @ markRange g chk from to ok (pos + length s) ns"
| "markRange g chk from to ok pos (Leaf ty inl ms # ns) =
     Leaf ty inl (if ok \<and> inl \<and> from \<le> pos \<and> pos < to then g ms else ms)
       # markRange g chk from to ok (pos + 1) ns"
| "markRange g chk from to ok pos (Elem ty lv tb al cs # ns) =
     Elem ty lv tb al (markRange g chk from to (chk \<longrightarrow> al) (pos + 1) cs)
       # markRange g chk from to ok (pos + nodeSize (Elem ty lv tb al cs)) ns"

fun addMark :: "node \<Rightarrow> nat \<Rightarrow> nat \<Rightarrow> mark \<Rightarrow> node" where
  "addMark (Elem ty lv tb al cs) from to m =
     Elem ty lv tb al (markRange (addToSet m) True from to al 0 cs)"
| "addMark doc from to m = doc"

fun removeMark :: "node \<Rightarrow> nat \<Rightarrow> nat \<Rightarrow> node" where
  "removeMark (Elem ty lv tb al cs) from to =
     Elem ty lv tb al (markRange removeCommentMarks False from to True 0 cs)"
| "removeMark doc from to = doc"

text \<open>
  \<open>setTextSelection({from, to}).setCommentMark({commentId})\<close>, which is \<open>setMark\<close> with the
  comment mark's type: the mark is added to the inline leaves of the range. The selection
  is clamped to the first and last text positions, beyond which there is no inline leaf.
\<close>

definition setCommentMark :: "node \<Rightarrow> nat \<Rightarrow> nat \<Rightarrow> jsstring \<Rightarrow> node" where
  "setCommentMark doc from to commentId = addMark doc from to (CommentMark (Some commentId))"

section \<open>Marks in the editor (tiptap.utils)\<close>

definition applyCommentMarkToSelection :: "node \<Rightarrow> nat \<times> nat \<Rightarrow> jsstring \<Rightarrow> node" where
  "applyCommentMarkToSelection doc selection commentId =
     setCommentMark doc (fst selection) (snd selection) commentId"

text \<open>
  \<open>removeCommentMarkFromDocument\<close>: every text node that carries the comment mark with the
  given id adds \<open>tr.removeMark(pos, pos + node.nodeSize, commentMarkType)\<close> to the
  transaction, which is dispatched when at least one was added. The schema of every editor
  of the source registers the comment mark.
\<close>

fun removeVisit :: "jsstring \<Rightarrow> node \<times> nat \<Rightarrow> node \<times> bool \<Rightarrow> node \<times> bool" where
  "removeVisit commentIdToRemove (Text s ms, pos) (trDoc, markRemoved) =
     (if CommentMark (Some commentIdToRemove) \<in> set ms
      then (removeMark trDoc pos (pos + nodeSize (Text s ms)), True)
      else (trDoc, markRemoved))"
| "removeVisit commentIdToRemove (Leaf ty inl ms, pos) st = st"
| "removeVisit commentIdToRemove (Elem ty lv tb al cs, pos) st = st"

definition removeCommentMarkFromDocument :: "node \<Rightarrow> jsstring \<Rightarrow> bool \<times> node" where
  "removeCommentMarkFromDocument doc commentIdToRemove =
     (let (trDoc, markRemoved) = fold (removeVisit commentIdToRemove) (descendants doc) (doc, False)
      in (markRemoved, if markRemoved then trDoc else doc))"

text \<open>
  \<open>removeAllCommentMarksFromDocument\<close>: every node that carries a comment mark, text or
  not, adds \<open>tr.removeMark(pos, pos + node.nodeSize, commentMarkType)\<close>.
\<close>

fun removeAllVisit :: "node \<times> nat \<Rightarrow> node \<times> bool \<Rightarrow> node \<times> bool" where
  "removeAllVisit (Text s ms, pos) (trDoc, marksWerePresent) =
     (if list_ex isCommentMark ms
      then (removeMark trDoc pos (pos + nodeSize (Text s ms)), True)
      else (trDoc, marksWerePresent))"
| "removeAllVisit (Leaf ty inl ms, pos) (trDoc, marksWerePresent) =
     (if list_ex isCommentMark ms
      then (removeMark trDoc pos (pos + nodeSize (Leaf ty inl ms)), True)
      else (trDoc, marksWerePresent))"
| "removeAllVisit (Elem ty lv tb al cs, pos) st = st"

definition removeAllCommentMarksFromDocument :: "node \<Rightarrow> bool \<times> node" where
  "removeAllCommentMarksFromDocument doc =
     (let (trDoc, marksWerePresent) = fold removeAllVisit (descendants doc) (doc, False)
      in (marksWerePresent, if marksWerePresent then trDoc else doc))"

section \<open>The Offset component (InlineCommentsWithOffset.tsx)\<close>

text \<open>
  The handlers of the component, on the document and the comment collection. The new id of
  \<open>handleAddComment\<close> (made from \<open>Date.now()\<close> and \<open>Math.random()\<close>), the current time and
  the selection are arguments; an empty selection raises the alert and changes nothing.
\<close>

record editorState =
  stateDoc :: node
  stateComments :: "inlineComment list"

definition isWhiteSpace :: "16 word \<Rightarrow> bool" where
  "isWhiteSpace c \<longleftrightarrow>
     c \<in> {0x09, 0x0A, 0x0B, 0x0C, 0x0D, 0x20, 0xA0, 0x1680, 0x2028, 0x2029, 0x202F, 0x205F,
          0x3000, 0xFEFF} \<or> (0x2000 \<le> c \<and> c \<le> 0x200A)"

definition trim :: "jsstring \<Rightarrow> jsstring" where
  "trim s = rev (dropWhile isWhiteSpace (rev (dropWhile isWhiteSpace s)))"

definition handleAddComment ::
    "jsstring \<Rightarrow> int \<Rightarrow> nat \<times> nat \<Rightarrow> editorState \<Rightarrow> editorState" where
  "handleAddComment commentId now selection st =
     (let (from, to) = selection in
      if from = to then st
      else
        let selectedText = textBetween (stateDoc st) from to (js '' '');
            newComment = \<lparr>comment_id = commentId, author = js ''user-current'',
               comment_text = js ''Comment to: '' @ [0x27] @ trim (take 30 selectedText)
                                @ (if 30 < length selectedText then js ''...'' else []) @ [0x27],
               createdAt = now, resolved = False, comment_type = Offset,
               position = Some \<lparr>textFragment = Some selectedText, pos_from = Some (int from),
                                 pos_to = Some (int to), path = None, startOffset = None,
                                 endOffset = None\<rparr>,
               replies = None\<rparr>
        in st\<lparr>stateDoc := applyCommentMarkToSelection (stateDoc st) (from, to) commentId,
               stateComments := stateComments st @ [newComment]\<rparr>)"

definition handleDeleteComment :: "jsstring \<Rightarrow> editorState \<Rightarrow> editorState" where
  "handleDeleteComment commentIdToDelete st =
     st\<lparr>stateDoc := snd (removeCommentMarkFromDocument (stateDoc st) commentIdToDelete),
         stateComments := filter (\<lambda>comment. comment_id comment \<noteq> commentIdToDelete) (stateComments st)\<rparr>"

text \<open>The hard break of the examples, an inline leaf.\<close>

definition hardBreak :: "mark list \<Rightarrow> node" where
  "hardBreak ms = Leaf (js ''hardBreak'') True ms"

section \<open>NodePath restoration (nodePath utilities)\<close>

text \<open>
  \<open>parseInt(s, 10)\<close>: leading white space is skipped, a sign is read, then the longest run
  of decimal digits; with no digit the result is \<open>NaN\<close>.
\<close>

datatype jsnum = NaN | Num int

definition isDigit :: "16 word \<Rightarrow> bool" where
  "isDigit c \<longleftrightarrow> 0x30 \<le> c \<and> c \<le> 0x39"

definition digitsValue :: "jsstring \<Rightarrow> int" where
  "digitsValue ds = foldl (\<lambda>acc c. 10 * acc + (uint c - 0x30)) 0 ds"

definition parseInt :: "jsstring \<Rightarrow> jsnum" where
  "parseInt str =
     (let s = dropWhile isWhiteSpace str;
          negative = (s \<noteq> [] \<and> hd s = 0x2D);
          body = (if s \<noteq> [] \<and> (hd s = 0x2D \<or> hd s = 0x2B) then tl s else s);
          ds = takeWhile isDigit body
      in if ds = [] then NaN
         else Num (if negative then - digitsValue ds else digitsValue ds))"

text \<open>
  \<^verbatim>\<open>segment.match(/^([a-zA-Z0-9_-]+):nth-child\\((\\d+)\\)$/)\<close>. In the pattern as it is
  written each \<^verbatim>\<open>\\\<close> is an escaped backslash and each parenthesis after it opens or
  closes a group: one or more tag characters, \<open>:nth-child\<close>, a backslash, then (group 2) a
  backslash, one or more letters \<open>d\<close> and a backslash, then the end. The result is the pair
  of group 1 and group 2, which the source names \<open>tagName\<close> and \<open>childIndexStr\<close>.
\<close>

definition isTagChar :: "16 word \<Rightarrow> bool" where
  "isTagChar c \<longleftrightarrow>
     (0x61 \<le> c \<and> c \<le> 0x7A) \<or> (0x41 \<le> c \<and> c \<le> 0x5A) \<or> (0x30 \<le> c \<and> c \<le> 0x39)
       \<or> c = 0x5F \<or> c = 0x2D"

definition BACKSLASH :: "16 word" where "BACKSLASH = 0x5C"

definition stripPrefix :: "'a list \<Rightarrow> 'a list \<Rightarrow> 'a list option" where
  "stripPrefix p s = (if take (length p) s = p then Some (drop (length p) s) else None)"

definition matchSegment :: "jsstring \<Rightarrow> (jsstring \<times> jsstring) option" where
  "matchSegment segment =
     (let tagName = takeWhile isTagChar segment;
          rest = dropWhile isTagChar segment
      in if tagName = [] then None
         else case stripPrefix (js '':nth-child'' @ [BACKSLASH]) rest of
                None \<Rightarrow> None
              | Some group2 \<Rightarrow>
                  (case stripPrefix [BACKSLASH] group2 of
                     None \<Rightarrow> None
                   | Some r \<Rightarrow>
                       let ds = takeWhile (\<lambda>c. c = 0x64) r
                       in if ds \<noteq> [] \<and> dropWhile (\<lambda>c. c = 0x64) r = [BACKSLASH]
                          then Some (tagName, group2) else None))"

text \<open>\<open>path.split(' > ')\<close>.\<close>

function splitOn :: "jsstring \<Rightarrow> jsstring \<Rightarrow> jsstring \<Rightarrow> jsstring list" where
  "splitOn sep acc [] = [acc]"
| "splitOn sep acc (c # cs) =
     (if sep \<noteq> [] \<and> take (length sep) (c # cs) = sep
      then acc # splitOn sep [] (drop (length sep) (c # cs))
      else splitOn sep (acc @ [c]) cs)"
  by pat_completeness auto

termination
  by (relation "measure (\<lambda>(sep, acc, s). length s)") auto

definition split :: "jsstring \<Rightarrow> jsstring \<Rightarrow> jsstring list" where
  "split s sep = splitOn sep [] s"

text \<open>\<open>prosemirrorTypeToTagName\<close>; \<open>decimal\<close> prints the level of a heading.\<close>

function decimal :: "nat \<Rightarrow> jsstring" where
  "decimal n = (if n < 10 then [0x30 + of_nat n] else decimal (n div 10) @ [0x30 + of_nat (n mod 10)])"
  by pat_completeness auto

termination
  by (relation "measure id") auto

definition prosemirrorTypeToTagName :: "jsstring \<Rightarrow> nat option \<Rightarrow> jsstring" where
  "prosemirrorTypeToTagName typeName level =
     (if typeName = js ''paragraph'' then js ''p''
      else if typeName = js ''heading''
        then js ''h'' @ decimal (case level of None \<Rightarrow> 1 | Some l \<Rightarrow> if l = 0 then 1 else l)
      else if typeName = js ''listItem'' then js ''li''
      else if typeName = js ''bulletList'' then js ''ul''
      else if typeName = js ''orderedList'' then js ''ol''
      else if typeName = js ''blockquote'' then js ''blockquote''
      else typeName)"

fun tagNameOf :: "node \<Rightarrow> jsstring" where
  "tagNameOf (Text s ms) = prosemirrorTypeToTagName (js ''text'') None"
| "tagNameOf (Leaf ty inl ms) = prosemirrorTypeToTagName ty None"
| "tagNameOf (Elem ty lv tb al cs) = prosemirrorTypeToTagName ty lv"

fun textContent :: "node \<Rightarrow> jsstring" where
  "textContent (Text s ms) = s"
| "textContent (Leaf ty inl ms) = []"
| "textContent (Elem ty lv tb al cs) = concat (map textContent cs)"

text \<open>What \<open>restoreMarkFromNodePath\<close> writes to the console, as a value.\<close>

datatype warning =
    MissingPositionOrPath
  | InvalidPathSegment jsstring
  | ChildIndexOutOfRange jsstring
  | TagMismatch jsstring
  | InvalidRange nat nat
  | TextContentMismatch
  | ErrorRestoringMark

text \<open>
  The loop over the segments. \<open>atDoc\<close> is \<open>currentNode === doc\<close>, true before the first
  descent only. With \<open>childIndex = NaN\<close> both comparisons of the range check are false and
  the loop over the preceding siblings does not run; \<open>currentNode.child(NaN)\<close> then throws a
  RangeError, which the \<open>catch\<close> turns into \<open>false\<close>.
\<close>

fun descend ::
    "bool \<Rightarrow> node \<Rightarrow> nat \<Rightarrow> jsstring list \<Rightarrow> warning list
       \<Rightarrow> warning list + (node \<times> nat \<times> warning list)" where
  "descend atDoc currentNode currentPosition [] log = Inr (currentNode, currentPosition, log)"
| "descend atDoc currentNode currentPosition (segment # segments) log =
     (case matchSegment segment of
        None \<Rightarrow> Inl (log @ [InvalidPathSegment segment])
      | Some (tagName, childIndexStr) \<Rightarrow>
          (case parseInt childIndexStr of
             NaN \<Rightarrow> Inl (log @ [ErrorRestoringMark])
           | Num n \<Rightarrow>
               let childIndex = n - 1 in
               if childIndex < 0 \<or> int (length (children currentNode)) \<le> childIndex
               then Inl (log @ [ChildIndexOutOfRange segment])
               else
                 let childNodeStartPosInDoc =
                       currentPosition + (if atDoc then 0 else 1)
                         + sum_list (map nodeSize (take (nat childIndex) (children currentNode)));
                     child = children currentNode ! nat childIndex
                 in descend False child childNodeStartPosInDoc segments
                      (if tagNameOf child \<noteq> tagName then log @ [TagMismatch segment] else log)))"

text \<open>
  \<open>restoreMarkFromNodePath\<close> returns its boolean, the document after it and the warnings.
  Its only caller passes the name of the comment mark as \<open>markName\<close>.
\<close>

definition restoreMarkFromNodePath :: "node \<Rightarrow> inlineComment \<Rightarrow> bool \<times> node \<times> warning list" where
  "restoreMarkFromNodePath doc comment =
     (case position comment of
        None \<Rightarrow> (False, doc, [MissingPositionOrPath])
      | Some p \<Rightarrow>
          (case path p of
             None \<Rightarrow> (False, doc, [MissingPositionOrPath])
           | Some pth \<Rightarrow>
               if pth = [] then
                 (if 0 < contentSize doc \<and> contentSize doc > 0
                  then (True, setCommentMark doc 0 (contentSize doc) (comment_id comment), [])
                  else (False, doc, []))
               else
                 (case descend True doc 0 (split pth (js '' > '')) [] of
                    Inl log \<Rightarrow> (False, doc, log)
                  | Inr (currentNode, currentPosition, log) \<Rightarrow>
                      let absoluteFrom = currentPosition;
                          absoluteTo = currentPosition + nodeSize currentNode
                      in if contentSize doc < absoluteFrom \<or> contentSize doc < absoluteTo
                            \<or> absoluteTo \<le> absoluteFrom
                         then (False, doc, log @ [InvalidRange absoluteFrom absoluteTo])
                         else (True, setCommentMark doc absoluteFrom absoluteTo (comment_id comment),
                               (case textFragment p of
                                  None \<Rightarrow> log
                                | Some tf \<Rightarrow>
                                    if tf \<noteq> [] \<and> trim (textContent currentNode) \<noteq> tf
                                    then log @ [TextContentMismatch] else log)))))"

fun restoreAll :: "inlineComment list \<Rightarrow> node \<times> nat \<times> warning list \<Rightarrow> node \<times> nat \<times> warning list" where
  "restoreAll [] st = st"
| "restoreAll (comment # rest) (doc, restoredCount, log) =
     (case restoreMarkFromNodePath doc comment of
        (ok, doc', w) \<Rightarrow> restoreAll rest (doc', if ok then restoredCount + 1 else restoredCount, log @ w))"

definition restoreCommentMarksInEditorUsingNodePath ::
    "node \<Rightarrow> inlineComment list \<Rightarrow> node \<times> nat \<times> warning list" where
  "restoreCommentMarksInEditorUsingNodePath doc commentsToRestore =
     (if commentsToRestore = [] then (doc, 0, []) else restoreAll commentsToRestore (doc, 0, []))"

text \<open>A NodePath position of the examples.\<close>

definition nodePathPosition :: "jsstring \<Rightarrow> nat \<Rightarrow> jsstring \<Rightarrow> commentPosition" where
  "nodePathPosition pth endOff frag =
     \<lparr>textFragment = Some frag, pos_from = None, pos_to = None,
      path = Some pth, startOffset = Some 0, endOffset = Some (int endOff)\<rparr>"

section \<open>Document invariants and the effect of a deletion, structurally\<close>

text \<open>
  Two invariants of the framework's documents: a text node is never empty, and, the comment
  mark excluding its own type, no leaf carries two comment marks. \<open>setCommentMark\<close> and
  \<open>removeMark\<close> keep both.
\<close>

fun emptyTextFree :: "node list \<Rightarrow> bool" where
  "emptyTextFree [] = True"
| "emptyTextFree (Text s ms # ns) = (s \<noteq> [] \<and> emptyTextFree ns)"
| "emptyTextFree (Leaf ty inl ms # ns) = emptyTextFree ns"
| "emptyTextFree (Elem ty lv tb al cs # ns) = (emptyTextFree cs \<and> emptyTextFree ns)"

definition atMostOneCommentMark :: "mark list \<Rightarrow> bool" where
  "atMostOneCommentMark ms \<longleftrightarrow> length (filter isCommentMark ms) \<le> 1"

fun marksExclusive :: "node list \<Rightarrow> bool" where
  "marksExclusive [] = True"
| "marksExclusive (Text s ms # ns) = (atMostOneCommentMark ms \<and> marksExclusive ns)"
| "marksExclusive (Leaf ty inl ms # ns) = (atMostOneCommentMark ms \<and> marksExclusive ns)"
| "marksExclusive (Elem ty lv tb al cs # ns) = (marksExclusive cs \<and> marksExclusive ns)"

text \<open>
  The document without the marker of one comment on its text leaves: every other mark and
  every other node as they are.
\<close>

fun withoutMarker :: "jsstring \<Rightarrow> node list \<Rightarrow> node list" where
  "withoutMarker commentId [] = []"
| "withoutMarker commentId (Text s ms # ns) =
     Text s (filter (\<lambda>m. m \<noteq> CommentMark (Some commentId)) ms) # withoutMarker commentId ns"
| "withoutMarker commentId (Leaf ty inl ms # ns) = Leaf ty inl ms # withoutMarker commentId ns"
| "withoutMarker commentId (Elem ty lv tb al cs # ns) =
     Elem ty lv tb al (withoutMarker commentId cs) # withoutMarker commentId ns"

fun withoutMarkerDoc :: "jsstring \<Rightarrow> node \<Rightarrow> node" where
  "withoutMarkerDoc commentId (Elem ty lv tb al cs) = Elem ty lv tb al (withoutMarker commentId cs)"
| "withoutMarkerDoc commentId d = d"

text \<open>
  Intermediate forms of a removal: the comment marks removed from the text nodes at a set of
  positions, and from the text nodes that carry a given marker.
\<close>

fun stripAt :: "nat set \<Rightarrow> nat \<Rightarrow> node list \<Rightarrow> node list" where
  "stripAt S pos [] = []"
| "stripAt S pos (Text s ms # ns) =
     Text s (if pos \<in> S then removeCommentMarks ms else ms) # stripAt S (pos + length s) ns"
| "stripAt S pos (Leaf ty inl ms # ns) = Leaf ty inl ms # stripAt S (pos + 1) ns"
| "stripAt S pos (Elem ty lv tb al cs # ns) =
     Elem ty lv tb al (stripAt S (pos + 1) cs) # stripAt S (pos + nodeSize (Elem ty lv tb al cs)) ns"

fun stripped :: "jsstring \<Rightarrow> node list \<Rightarrow> node list" where
  "stripped commentId [] = []"
| "stripped commentId (Text s ms # ns) =
     Text s (if CommentMark (Some commentId) \<in> set ms then removeCommentMarks ms else ms)
       # stripped commentId ns"
| "stripped commentId (Leaf ty inl ms # ns) = Leaf ty inl ms # stripped commentId ns"
| "stripped commentId (Elem ty lv tb al cs # ns) =
     Elem ty lv tb al (stripped commentId cs) # stripped commentId ns"

text \<open>The size of a list of siblings.\<close>

definition sizes :: "node list \<Rightarrow> nat" where
  "sizes ns = sum_list (map nodeSize ns)"

text \<open>The positions of the text nodes of a visiting sequence that carry a given marker.\<close>

definition matchedPositions :: "jsstring \<Rightarrow> (node \<times> nat) list \<Rightarrow> nat set" where
  "matchedPositions commentId vs =
     {p. \<exists>s ms. (Text s ms, p) \<in> set vs \<and> CommentMark (Some commentId) \<in> set ms}"

section \<open>Selections that begin and end on text\<close>

text \<open>
  Position \<open>p\<close> holds a code unit of a text leaf that takes the comment mark: its parent
  admits the mark and none of its own marks excludes it.
\<close>

fun textCharAt :: "bool \<Rightarrow> nat \<Rightarrow> node list \<Rightarrow> nat \<Rightarrow> bool" where
  "textCharAt ok pos [] p = False"
| "textCharAt ok pos (Text s ms # ns) p =
     ((ok \<and> \<not> list_ex excludesCommentMark ms \<and> pos \<le> p \<and> p < pos + length s)
        \<or> textCharAt ok (pos + length s) ns p)"
| "textCharAt ok pos (Leaf ty inl ms # ns) p = textCharAt ok (pos + 1) ns p"
| "textCharAt ok pos (Elem ty lv tb al cs # ns) p =
     (textCharAt al (pos + 1) cs p \<or> textCharAt ok (pos + nodeSize (Elem ty lv tb al cs)) ns p)"

fun markableTextAt :: "node \<Rightarrow> nat \<Rightarrow> bool" where
  "markableTextAt (Elem ty lv tb al cs) p = textCharAt al 0 cs p"
| "markableTextAt d p = False"

section \<open>Properties of space normalisation\<close>

lemma normalizedSpaces_Nil: "normalizedSpaces [] = []"
  by (simp add: normalizedSpaces_def)

lemma length_normalizedSpaces: "length (normalizedSpaces xs) = length xs"
  by (simp add: normalizedSpaces_def)

lemma normalizedSpaces_nth:
  "i < length xs \<Longrightarrow> normalizedSpaces xs ! i = (if inSpaceRun xs i then NBSP else xs ! i)"
  by (simp add: normalizedSpaces_def)

lemma normalizedSpaces_single:
  assumes "c \<noteq> SPACE \<or> cs = [] \<or> hd cs \<noteq> SPACE"
  shows "normalizedSpaces (c # cs) = c # normalizedSpaces cs"
proof (rule nth_equalityI)
  show "length (normalizedSpaces (c # cs)) = length (c # normalizedSpaces cs)"
    by (simp add: length_normalizedSpaces)
next
  fix i assume "i < length (normalizedSpaces (c # cs))"
  then have i: "i < Suc (length cs)" by (simp add: length_normalizedSpaces)
  show "normalizedSpaces (c # cs) ! i = (c # normalizedSpaces cs) ! i"
  proof (cases i)
    case 0
    with assms show ?thesis
      by (cases cs) (auto simp: normalizedSpaces_nth inSpaceRun_def)
  next
    case (Suc j)
    with i have j: "j < length cs" by simp
    have "inSpaceRun (c # cs) (Suc j) = inSpaceRun cs j"
      using assms j by (cases cs; cases j) (auto simp: inSpaceRun_def)
    with Suc j show ?thesis by (simp add: normalizedSpaces_nth)
  qed
qed

lemma normalizedSpaces_run:
  assumes n: "2 \<le> n" and rest: "rest = [] \<or> hd rest \<noteq> SPACE"
  shows "normalizedSpaces (replicate n SPACE @ rest) = replicate n NBSP @ normalizedSpaces rest"
proof (rule nth_equalityI)
  show "length (normalizedSpaces (replicate n SPACE @ rest)) = length (replicate n NBSP @ normalizedSpaces rest)"
    by (simp add: length_normalizedSpaces)
next
  fix i assume "i < length (normalizedSpaces (replicate n SPACE @ rest))"
  then have i: "i < n + length rest" by (simp add: length_normalizedSpaces)
  show "normalizedSpaces (replicate n SPACE @ rest) ! i = (replicate n NBSP @ normalizedSpaces rest) ! i"
  proof (cases "i < n")
    case True
    have "inSpaceRun (replicate n SPACE @ rest) i"
    proof (cases "i = 0")
      case True
      with n show ?thesis by (simp add: inSpaceRun_def nth_append)
    next
      case False
      with True have "i - 1 < n" and "0 < i" by simp_all
      with True show ?thesis by (simp add: inSpaceRun_def nth_append)
    qed
    with True i show ?thesis by (simp add: normalizedSpaces_nth nth_append)
  next
    case False
    define j where "j = i - n"
    have ij: "i = n + j" using False by (simp add: j_def)
    have j: "j < length rest" using i ij by simp
    have hd: "rest ! 0 \<noteq> SPACE" using rest j by (cases rest) auto
    have "inSpaceRun (replicate n SPACE @ rest) (n + j) = inSpaceRun rest j"
    proof (cases j)
      case 0
      with hd show ?thesis by (simp add: inSpaceRun_def nth_append)
    next
      case (Suc k)
      then show ?thesis using j by (auto simp add: inSpaceRun_def nth_append)
    qed
    with ij j show ?thesis by (simp add: normalizedSpaces_nth nth_append length_normalizedSpaces)
  qed
qed

lemma takeWhile_run:
  "xs = replicate (length (takeWhile (\<lambda>x. x = a) xs)) a @ dropWhile (\<lambda>x. x = a) xs"
proof -
  have "takeWhile (\<lambda>x. x = a) xs = replicate (length (takeWhile (\<lambda>x. x = a) xs)) a"
    by (induction xs) auto
  then show ?thesis
    by (metis takeWhile_dropWhile_id)
qed

lemma dropWhile_hd: "dropWhile P xs = [] \<or> \<not> P (hd (dropWhile P xs))"
  by (metis hd_dropWhile)

lemma replace_is_normalized:
  "replaceConsecutiveSpacesWithNbsp xs = normalizedSpaces xs"
proof (induction xs rule: replaceConsecutiveSpacesWithNbsp.induct)
  case 1
  show ?case by (simp add: normalizedSpaces_Nil)
next
  case (2 c cs)
  define n where "n = length (takeWhile (\<lambda>x. x = SPACE) (c # cs))"
  define rest where "rest = dropWhile (\<lambda>x. x = SPACE) (c # cs)"
  have split: "c # cs = replicate n SPACE @ rest"
    unfolding n_def rest_def by (rule takeWhile_run)
  have drop: "drop n (c # cs) = rest"
    unfolding n_def rest_def by (simp only: dropWhile_eq_drop)
  have rest: "rest = [] \<or> hd rest \<noteq> SPACE"
    unfolding rest_def using dropWhile_hd[of "\<lambda>x. x = SPACE" "c # cs"] by simp
  show ?case
  proof (cases "2 \<le> n")
    case True
    have "replaceConsecutiveSpacesWithNbsp (c # cs) = replicate n NBSP @ replaceConsecutiveSpacesWithNbsp rest"
      using True drop by (simp add: n_def Let_def del: takeWhile.simps)
    also have "\<dots> = replicate n NBSP @ normalizedSpaces rest"
      using "2.IH"(1)[OF n_def True] drop by simp
    also have "\<dots> = normalizedSpaces (replicate n SPACE @ rest)"
      using normalizedSpaces_run[OF True rest] by simp
    finally show ?thesis using split by simp
  next
    case False
    have single: "c \<noteq> SPACE \<or> cs = [] \<or> hd cs \<noteq> SPACE"
      using False unfolding n_def by (cases cs) (auto split: if_splits)
    have "replaceConsecutiveSpacesWithNbsp (c # cs) = c # replaceConsecutiveSpacesWithNbsp cs"
      using False by (simp add: n_def Let_def del: takeWhile.simps)
    also have "\<dots> = c # normalizedSpaces cs"
      using "2.IH"(2)[OF n_def False] by simp
    finally show ?thesis using normalizedSpaces_single[OF single] by simp
  qed
qed

text \<open>
  C6. For every input string, the space normalisation rewrites each maximal run of two or
  more consecutive plain spaces (U+0020) into the same number of no-break spaces (U+00A0)
  and leaves every other code unit unchanged: the result has the length of the input, and
  position \<open>i\<close> holds U+00A0 when the input has a plain space there with a plain space
  beside it, and the input's code unit otherwise. Single spaces are never touched:
  \<open>a   b\<close> (three spaces) yields exactly three no-break spaces between \<open>a\<close> and \<open>b\<close>, and
  \<open>a b\<close> is returned unchanged.
\<close>

theorem replaceConsecutiveSpacesWithNbsp_runs:
  "length (replaceConsecutiveSpacesWithNbsp xs) = length xs \<and>
   (\<forall>i < length xs. replaceConsecutiveSpacesWithNbsp xs ! i =
        (if inSpaceRun xs i then NBSP else xs ! i)) \<and>
   replaceConsecutiveSpacesWithNbsp (js ''a   b'') = js ''a'' @ [NBSP, NBSP, NBSP] @ js ''b'' \<and>
   replaceConsecutiveSpacesWithNbsp (js ''a b'') = js ''a b''"
proof -
  have "replaceConsecutiveSpacesWithNbsp (js ''a   b'') = js ''a'' @ [NBSP, NBSP, NBSP] @ js ''b''"
    by (simp add: js_def SPACE_def)
  moreover have "replaceConsecutiveSpacesWithNbsp (js ''a b'') = js ''a b''"
    by (simp add: js_def SPACE_def)
  ultimately show ?thesis
    by (simp add: replace_is_normalized length_normalizedSpaces normalizedSpaces_nth)
qed

theorem replaceConsecutiveSpacesWithNbsp_runs_witness:
  "replaceConsecutiveSpacesWithNbsp (js ''a  b c'') ! 1 = NBSP \<and>
   replaceConsecutiveSpacesWithNbsp (js ''a  b c'') ! 2 = NBSP \<and>
   replaceConsecutiveSpacesWithNbsp (js ''a  b c'') ! 4 = SPACE \<and>
   length (replaceConsecutiveSpacesWithNbsp (js ''a  b c'')) = 6"
proof -
  have len: "length (js ''a  b c'') = 6" by (simp add: js_def)
  have r1: "inSpaceRun (js ''a  b c'') 1" by (simp add: inSpaceRun_def js_def SPACE_def)
  have r2: "inSpaceRun (js ''a  b c'') 2" by (simp add: inSpaceRun_def js_def SPACE_def)
  have r4: "\<not> inSpaceRun (js ''a  b c'') 4" by (simp add: inSpaceRun_def js_def SPACE_def)
  have v4: "js ''a  b c'' ! 4 = SPACE" by (simp add: js_def SPACE_def)
  from replaceConsecutiveSpacesWithNbsp_runs [of "js ''a  b c''"]
  have all: "\<forall>i < 6. replaceConsecutiveSpacesWithNbsp (js ''a  b c'') ! i =
                 (if inSpaceRun (js ''a  b c'') i then NBSP else js ''a  b c'' ! i)"
    and l: "length (replaceConsecutiveSpacesWithNbsp (js ''a  b c'')) = 6"
    using len by simp_all
  from all r1 have "replaceConsecutiveSpacesWithNbsp (js ''a  b c'') ! 1 = NBSP" by simp
  moreover from all r2 have "replaceConsecutiveSpacesWithNbsp (js ''a  b c'') ! 2 = NBSP" by simp
  moreover from all r4 v4 have "replaceConsecutiveSpacesWithNbsp (js ''a  b c'') ! 4 = SPACE" by simp
  ultimately show ?thesis using l by simp
qed

section \<open>The per-comment step\<close>

lemma syncComment_idem:
  "syncComment d m (fst (syncComment d m c)) = (fst (syncComment d m c), False)"
  by (auto simp: syncComment_def isAlreadyOrphaned_def Let_def split: option.splits)

lemma syncComment_frame:
  "(fst (syncComment d m c))\<lparr>position := position c\<rparr> = c"
  by (auto simp: syncComment_def Let_def split: option.splits)

section \<open>Properties of the marker scan\<close>

lemma mergeRun_idem: "mergeRun r (mergeRun r x) = mergeRun r x"
  by (cases r; cases x) auto

lemma recordMark_other:
  "mk \<noteq> CommentMark (Some cid) \<Longrightarrow> recordMark f t mk m cid = m cid"
  by (cases "(f, t, mk, m)" rule: recordMark.cases) (auto split: option.splits)

lemma recordMark_same:
  "cid \<noteq> [] \<Longrightarrow> recordMark f t (CommentMark (Some cid)) m cid = mergeRun (f, t) (m cid)"
  by (auto split: option.splits)

lemma fold_recordMark:
  assumes "cid \<noteq> []"
  shows "fold (recordMark f t) ms m cid =
        (if CommentMark (Some cid) \<in> set ms then mergeRun (f, t) (m cid) else m cid)"
proof (induction ms arbitrary: m rule: rev_induct)
  case Nil
  show ?case by simp
next
  case (snoc mk ms)
  show ?case
  proof (cases "mk = CommentMark (Some cid)")
    case True
    then show ?thesis
      using snoc assms by (simp add: recordMark_same mergeRun_idem del: recordMark.simps)
  next
    case False
    then show ?thesis
      using snoc by (simp add: recordMark_other del: recordMark.simps)
  qed
qed

lemma fold_scanNode:
  assumes "cid \<noteq> []"
  shows "fold scanNode nps m cid = fold mergeRun (markerRunsOf cid nps) (m cid)"
proof (induction nps arbitrary: m)
  case Nil
  show ?case by simp
next
  case (Cons np nps)
  obtain n pos where np: "np = (n, pos)" by (cases np)
  show ?case
    using Cons assms by (cases n) (simp_all add: np fold_recordMark del: recordMark.simps)
qed

lemma fold_mergeRun_Some:
  "fold mergeRun rs (Some (a, b)) = Some (fold min (map fst rs) a, fold max (map snd rs) b)"
  by (induction rs arbitrary: a b) (auto simp: min.commute max.commute)

lemma fold_mergeRun_None: "fold mergeRun rs None = coalesce rs"
proof (cases rs)
  case Nil
  then show ?thesis by (simp add: coalesce_def)
next
  case (Cons r rs')
  obtain f t where r: "r = (f, t)" by (cases r)
  have "Min (set (f # map fst rs')) = fold min (map fst rs') f"
    by (rule Min.set_eq_fold)
  moreover have "Max (set (t # map snd rs')) = fold max (map snd rs') t"
    by (rule Max.set_eq_fold)
  ultimately show ?thesis
    using Cons r by (simp add: coalesce_def fold_mergeRun_Some)
qed

lemma currentMarksInDoc_coalesce:
  "cid \<noteq> [] \<Longrightarrow> currentMarksInDoc doc cid = coalesce (markerRuns doc cid)"
  by (simp add: currentMarksInDoc_def markerRuns_def fold_scanNode fold_mergeRun_None)

lemma currentMarksInDoc_None:
  "cid \<noteq> [] \<Longrightarrow> currentMarksInDoc doc cid = None \<longleftrightarrow> \<not> carriesMarker doc cid"
  by (simp add: currentMarksInDoc_coalesce coalesce_def carriesMarker_def)

lemma sync_length: "length (fst (syncCommentPositionsWithEditorState d cs)) = length cs"
  by (simp add: syncCommentPositionsWithEditorState_def Let_def)

lemma sync_nth:
  "i < length cs \<Longrightarrow>
   fst (syncCommentPositionsWithEditorState d cs) ! i = fst (syncComment d (currentMarksInDoc d) (cs ! i))"
  by (auto simp add: syncCommentPositionsWithEditorState_def Let_def)

lemma sync_changed:
  "snd (syncCommentPositionsWithEditorState d cs) \<longleftrightarrow>
     (\<exists>c \<in> set cs. snd (syncComment d (currentMarksInDoc d) c))"
  by (auto simp add: syncCommentPositionsWithEditorState_def Let_def list_ex_iff)

lemma syncComment_orphaned_absent:
  "isAlreadyOrphaned c \<Longrightarrow> m (comment_id c) = None \<Longrightarrow> syncComment d m c = (c, False)"
  by (auto simp: syncComment_def isAlreadyOrphaned_def split: option.splits)

lemma syncRuns_length: "length (syncRuns ds cs) = length cs"
  by (induction ds arbitrary: cs) (simp_all add: syncRuns_def sync_length)

section \<open>Properties of the synchronizer\<close>

lemmas example_defs = mkComment_def offsetPosition_def orphanedPosition_def para_def docOf_def
  js_def syncCommentPositionsWithEditorState_def syncComment_def currentMarksInDoc_def
  descendants_def textBetween_def sliceStr_def isAlreadyOrphaned_def orphanedFragment_def
  carriesMarker_def markerRuns_def

text \<open>
  C5. The synchronizer is idempotent: a second run on the same document, given the comment
  list the first run returned, returns that list unchanged and reports
  \<open>commentsStateChanged = false\<close>.
\<close>

theorem sync_idempotent:
  "syncCommentPositionsWithEditorState d (fst (syncCommentPositionsWithEditorState d cs))
     = (fst (syncCommentPositionsWithEditorState d cs), False)"
proof (cases "cs = []")
  case True
  then show ?thesis by (simp add: syncCommentPositionsWithEditorState_def)
next
  case False
  let ?m = "currentMarksInDoc d"
  let ?out = "map (\<lambda>c. fst (syncComment d ?m c)) cs"
  have first: "fst (syncCommentPositionsWithEditorState d cs) = ?out"
    using False by (simp add: syncCommentPositionsWithEditorState_def Let_def comp_def)
  have ne: "?out \<noteq> []" using False by simp
  have again: "map (syncComment d ?m) ?out = map (\<lambda>c. (c, False)) ?out"
    by (simp add: comp_def syncComment_idem)
  have "syncCommentPositionsWithEditorState d ?out
          = (map fst (map (\<lambda>c. (c, False)) ?out), list_ex snd (map (\<lambda>c. (c, False)) ?out))"
    using ne unfolding syncCommentPositionsWithEditorState_def Let_def again by simp
  also have "\<dots> = (?out, False)"
    by (simp add: comp_def list_ex_iff)
  finally show ?thesis unfolding first .
qed

lemma ex_sync_1:
  "syncCommentPositionsWithEditorState
     (docOf [para [Text (js ''ab'') [CommentMark (Some (js ''c1''))], Text (js ''cd'') []]])
     [mkComment (js ''c1'') (Some (offsetPosition 2 4 (js ''bc''))),
      mkComment (js ''c2'') (Some (offsetPosition 4 5 (js ''d'')))]
   = ([mkComment (js ''c1'') (Some (offsetPosition 1 3 (js ''ab''))),
       mkComment (js ''c2'') (Some (orphanedPosition (js ''[ORPHANED] d'')))], True)"
  by (simp add: example_defs)

theorem sync_idempotent_witness:
  "syncCommentPositionsWithEditorState
     (docOf [para [Text (js ''ab'') [CommentMark (Some (js ''c1''))], Text (js ''cd'') []]])
     [mkComment (js ''c1'') (Some (offsetPosition 1 3 (js ''ab''))),
      mkComment (js ''c2'') (Some (orphanedPosition (js ''[ORPHANED] d'')))]
   = ([mkComment (js ''c1'') (Some (offsetPosition 1 3 (js ''ab''))),
       mkComment (js ''c2'') (Some (orphanedPosition (js ''[ORPHANED] d'')))], False)"
  using sync_idempotent [of
     "docOf [para [Text (js ''ab'') [CommentMark (Some (js ''c1''))], Text (js ''cd'') []]]"
     "[mkComment (js ''c1'') (Some (offsetPosition 2 4 (js ''bc''))),
       mkComment (js ''c2'') (Some (offsetPosition 4 5 (js ''d'')))]"]
  by (simp only: ex_sync_1 fst_conv)

text \<open>
  C10. For every document and comment list the synchronizer returns a list of the same
  length with the same comments in the same order; \<open>id\<close>, \<open>author\<close>, \<open>text\<close>, \<open>createdAt\<close>,
  \<open>resolved\<close>, \<open>type\<close> and \<open>replies\<close> of every comment are those of the input, and so is
  the whole record once \<open>position\<close> is blanked on both sides: only \<open>position\<close> is rewritten.
\<close>

theorem sync_frame:
  "length (fst (syncCommentPositionsWithEditorState d cs)) = length cs \<and>
   map comment_id (fst (syncCommentPositionsWithEditorState d cs)) = map comment_id cs \<and>
   map author (fst (syncCommentPositionsWithEditorState d cs)) = map author cs \<and>
   map comment_text (fst (syncCommentPositionsWithEditorState d cs)) = map comment_text cs \<and>
   map createdAt (fst (syncCommentPositionsWithEditorState d cs)) = map createdAt cs \<and>
   map resolved (fst (syncCommentPositionsWithEditorState d cs)) = map resolved cs \<and>
   map comment_type (fst (syncCommentPositionsWithEditorState d cs)) = map comment_type cs \<and>
   map replies (fst (syncCommentPositionsWithEditorState d cs)) = map replies cs \<and>
   map (\<lambda>c. c\<lparr>position := None\<rparr>) (fst (syncCommentPositionsWithEditorState d cs))
     = map (\<lambda>c. c\<lparr>position := None\<rparr>) cs"
proof -
  let ?out = "fst (syncCommentPositionsWithEditorState d cs)"
  have out: "?out = map (\<lambda>c. fst (syncComment d (currentMarksInDoc d) c)) cs"
    by (simp add: syncCommentPositionsWithEditorState_def Let_def comp_def)
  have fr: "\<And>c. (fst (syncComment d (currentMarksInDoc d) c))\<lparr>position := None\<rparr> = c\<lparr>position := None\<rparr>"
    by (auto simp: syncComment_def Let_def split: option.splits)
  have key: "map (\<lambda>c. c\<lparr>position := None\<rparr>) ?out = map (\<lambda>c. c\<lparr>position := None\<rparr>) cs"
    unfolding out by (simp add: comp_def fr)
  have f1: "map comment_id ?out = map comment_id (map (\<lambda>c. c\<lparr>position := None\<rparr>) ?out)"
    and f2: "map author ?out = map author (map (\<lambda>c. c\<lparr>position := None\<rparr>) ?out)"
    and f3: "map comment_text ?out = map comment_text (map (\<lambda>c. c\<lparr>position := None\<rparr>) ?out)"
    and f4: "map createdAt ?out = map createdAt (map (\<lambda>c. c\<lparr>position := None\<rparr>) ?out)"
    and f5: "map resolved ?out = map resolved (map (\<lambda>c. c\<lparr>position := None\<rparr>) ?out)"
    and f6: "map comment_type ?out = map comment_type (map (\<lambda>c. c\<lparr>position := None\<rparr>) ?out)"
    and f7: "map replies ?out = map replies (map (\<lambda>c. c\<lparr>position := None\<rparr>) ?out)"
    by (simp_all add: comp_def)
  show ?thesis
    unfolding f1 f2 f3 f4 f5 f6 f7 unfolding key
    by (simp add: comp_def sync_length)
qed

theorem sync_frame_witness:
  "map comment_id (fst (syncCommentPositionsWithEditorState
     (docOf [para [Text (js ''ab'') [CommentMark (Some (js ''c1''))], Text (js ''cd'') []]])
     [mkComment (js ''c1'') (Some (offsetPosition 2 4 (js ''bc''))),
      mkComment (js ''c2'') (Some (offsetPosition 4 5 (js ''d'')))])) = [js ''c1'', js ''c2''] \<and>
   map position (fst (syncCommentPositionsWithEditorState
     (docOf [para [Text (js ''ab'') [CommentMark (Some (js ''c1''))], Text (js ''cd'') []]])
     [mkComment (js ''c1'') (Some (offsetPosition 2 4 (js ''bc''))),
      mkComment (js ''c2'') (Some (offsetPosition 4 5 (js ''d'')))]))
    = [Some (offsetPosition 1 3 (js ''ab'')), Some (orphanedPosition (js ''[ORPHANED] d''))]"
proof -
  have "map position (fst (syncCommentPositionsWithEditorState
     (docOf [para [Text (js ''ab'') [CommentMark (Some (js ''c1''))], Text (js ''cd'') []]])
     [mkComment (js ''c1'') (Some (offsetPosition 2 4 (js ''bc''))),
      mkComment (js ''c2'') (Some (offsetPosition 4 5 (js ''d'')))]))
    = [Some (offsetPosition 1 3 (js ''ab'')), Some (orphanedPosition (js ''[ORPHANED] d''))]"
    by (simp add: ex_sync_1) (simp add: mkComment_def)
  moreover have "map comment_id [mkComment (js ''c1'') (Some (offsetPosition 2 4 (js ''bc''))),
      mkComment (js ''c2'') (Some (offsetPosition 4 5 (js ''d'')))] = [js ''c1'', js ''c2'']"
    by (simp add: mkComment_def)
  ultimately show ?thesis
    using sync_frame [of
     "docOf [para [Text (js ''ab'') [CommentMark (Some (js ''c1''))], Text (js ''cd'') []]]"
     "[mkComment (js ''c1'') (Some (offsetPosition 2 4 (js ''bc''))),
       mkComment (js ''c2'') (Some (offsetPosition 4 5 (js ''d'')))]"]
    by (simp only:)
qed

text \<open>
  C2, as amended. A comment whose id is the empty string is returned unchanged, whatever
  the document holds. If a comment with a non-empty id is bound (a numeric \<open>from\<close> is
  stored) and no text leaf of the document carries a marker with its id, the synchronizer
  makes it Orphaned: \<open>from\<close> and \<open>to\<close> are cleared, the stored \<open>textFragment\<close> is kept
  behind the prefix \<open>[ORPHANED] \<close>, every other field is kept, the comment stays in the
  collection at its place, and the run reports a change. A missing or empty
  \<open>textFragment\<close> is replaced by \<open>No original text\<close> behind the same prefix.
\<close>

theorem orphaning_transition:
  assumes i: "i < length cs"
  shows "length (fst (syncCommentPositionsWithEditorState d cs)) = length cs \<and>
         (comment_id (cs ! i) = [] \<longrightarrow>
            fst (syncCommentPositionsWithEditorState d cs) ! i = cs ! i) \<and>
         (comment_id (cs ! i) \<noteq> [] \<and> position (cs ! i) = Some p \<and> pos_from p = Some f \<and>
          \<not> carriesMarker d (comment_id (cs ! i)) \<longrightarrow>
            fst (syncCommentPositionsWithEditorState d cs) ! i =
              (cs ! i)\<lparr>position := Some \<lparr>textFragment = Some (orphanedFragment (textFragment p)),
                           pos_from = None, pos_to = None,
                           path = None, startOffset = None, endOffset = None\<rparr>\<rparr> \<and>
            snd (syncCommentPositionsWithEditorState d cs)) \<and>
         (s \<noteq> [] \<longrightarrow> orphanedFragment (Some s) = js ''[ORPHANED] '' @ s) \<and>
         orphanedFragment None = js ''[ORPHANED] No original text'' \<and>
         orphanedFragment (Some []) = js ''[ORPHANED] No original text''"
proof -
  have len: "length (fst (syncCommentPositionsWithEditorState d cs)) = length cs"
    by (rule sync_length)
  have empty: "comment_id (cs ! i) = [] \<longrightarrow>
            fst (syncCommentPositionsWithEditorState d cs) ! i = cs ! i"
    using i by (simp add: sync_nth syncComment_def)
  have orphan: "comment_id (cs ! i) \<noteq> [] \<and> position (cs ! i) = Some p \<and> pos_from p = Some f \<and>
          \<not> carriesMarker d (comment_id (cs ! i)) \<longrightarrow>
            fst (syncCommentPositionsWithEditorState d cs) ! i =
              (cs ! i)\<lparr>position := Some \<lparr>textFragment = Some (orphanedFragment (textFragment p)),
                           pos_from = None, pos_to = None,
                           path = None, startOffset = None, endOffset = None\<rparr>\<rparr> \<and>
            snd (syncCommentPositionsWithEditorState d cs)"
  proof
    assume a: "comment_id (cs ! i) \<noteq> [] \<and> position (cs ! i) = Some p \<and> pos_from p = Some f \<and>
          \<not> carriesMarker d (comment_id (cs ! i))"
    then have none: "currentMarksInDoc d (comment_id (cs ! i)) = None"
      by (simp add: currentMarksInDoc_None)
    have one: "syncComment d (currentMarksInDoc d) (cs ! i) =
        ((cs ! i)\<lparr>position := Some \<lparr>textFragment = Some (orphanedFragment (textFragment p)),
                          pos_from = None, pos_to = None,
                          path = None, startOffset = None, endOffset = None\<rparr>\<rparr>, True)"
      using a none by (simp add: syncComment_def isAlreadyOrphaned_def)
    have "cs ! i \<in> set cs" using i by simp
    with one have "snd (syncCommentPositionsWithEditorState d cs)"
      unfolding sync_changed by (metis snd_conv)
    moreover have "fst (syncCommentPositionsWithEditorState d cs) ! i =
             (cs ! i)\<lparr>position := Some \<lparr>textFragment = Some (orphanedFragment (textFragment p)),
                          pos_from = None, pos_to = None,
                          path = None, startOffset = None, endOffset = None\<rparr>\<rparr>"
      using i one by (simp add: sync_nth)
    ultimately show "fst (syncCommentPositionsWithEditorState d cs) ! i =
              (cs ! i)\<lparr>position := Some \<lparr>textFragment = Some (orphanedFragment (textFragment p)),
                           pos_from = None, pos_to = None,
                           path = None, startOffset = None, endOffset = None\<rparr>\<rparr> \<and>
            snd (syncCommentPositionsWithEditorState d cs)"
      by simp
  qed
  have frag: "(s \<noteq> [] \<longrightarrow> orphanedFragment (Some s) = js ''[ORPHANED] '' @ s) \<and>
         orphanedFragment None = js ''[ORPHANED] No original text'' \<and>
         orphanedFragment (Some []) = js ''[ORPHANED] No original text''"
    by (simp add: orphanedFragment_def js_def)
  from len empty orphan frag show ?thesis by blast
qed

theorem orphaning_transition_witness:
  "fst (syncCommentPositionsWithEditorState
     (docOf [para [Text (js ''ab'') [CommentMark (Some (js ''c1''))], Text (js ''cd'') []]])
     [mkComment (js ''c1'') (Some (offsetPosition 2 4 (js ''bc''))),
      mkComment (js ''c2'') (Some (offsetPosition 4 5 (js ''d''))),
      mkComment [] (Some (offsetPosition 1 3 (js ''ab'')))]) ! 1
   = mkComment (js ''c2'') (Some (orphanedPosition (js ''[ORPHANED] d''))) \<and>
   fst (syncCommentPositionsWithEditorState
     (docOf [para [Text (js ''ab'') [CommentMark (Some (js ''c1''))], Text (js ''cd'') []]])
     [mkComment (js ''c1'') (Some (offsetPosition 2 4 (js ''bc''))),
      mkComment (js ''c2'') (Some (offsetPosition 4 5 (js ''d''))),
      mkComment [] (Some (offsetPosition 1 3 (js ''ab'')))]) ! 2
   = mkComment [] (Some (offsetPosition 1 3 (js ''ab'')))"
proof -
  let ?d = "docOf [para [Text (js ''ab'') [CommentMark (Some (js ''c1''))], Text (js ''cd'') []]]"
  let ?cs = "[mkComment (js ''c1'') (Some (offsetPosition 2 4 (js ''bc''))),
      mkComment (js ''c2'') (Some (offsetPosition 4 5 (js ''d''))),
      mkComment [] (Some (offsetPosition 1 3 (js ''ab'')))]"
  have 1: "(1::nat) < length ?cs" and 2: "(2::nat) < length ?cs" by simp_all
  have b: "comment_id (?cs ! 1) \<noteq> [] \<and> position (?cs ! 1) = Some (offsetPosition 4 5 (js ''d''))
        \<and> pos_from (offsetPosition 4 5 (js ''d'')) = Some 4
        \<and> \<not> carriesMarker ?d (comment_id (?cs ! 1))"
    by (simp add: example_defs)
  have e: "comment_id (?cs ! 2) = []" by (simp add: mkComment_def)
  have r: "(?cs ! 1)\<lparr>position := Some \<lparr>textFragment =
               Some (orphanedFragment (textFragment (offsetPosition 4 5 (js ''d'')))),
               pos_from = None, pos_to = None, path = None, startOffset = None,
               endOffset = None\<rparr>\<rparr>
           = mkComment (js ''c2'') (Some (orphanedPosition (js ''[ORPHANED] d'')))"
    by (simp add: example_defs)
  have n: "?cs ! 2 = mkComment [] (Some (offsetPosition 1 3 (js ''ab'')))" by simp
  from orphaning_transition [OF 1, of ?d "offsetPosition 4 5 (js ''d'')" 4] b
  have "fst (syncCommentPositionsWithEditorState ?d ?cs) ! 1
          = mkComment (js ''c2'') (Some (orphanedPosition (js ''[ORPHANED] d'')))"
    unfolding r by blast
  moreover from orphaning_transition [OF 2, of ?d] e
  have "fst (syncCommentPositionsWithEditorState ?d ?cs) ! 2
          = mkComment [] (Some (offsetPosition 1 3 (js ''ab'')))"
    unfolding n by blast
  ultimately show ?thesis by blast
qed

text \<open>
  C2 as stated fails for a comment whose id is the empty string: the guard
  \<open>if (!comment.id) return comment\<close> returns it as it is, still bound, although no text leaf
  carries a marker with its id. And a bound comment that stores no \<open>textFragment\<close> is given
  one when it is orphaned, the placeholder behind the prefix.
\<close>

theorem orphaning_counterexample:
  "\<not> carriesMarker (docOf [para [Text (js ''ab'') []]]) [] \<and>
   syncCommentPositionsWithEditorState (docOf [para [Text (js ''ab'') []]])
      [mkComment [] (Some (offsetPosition 1 3 (js ''ab'')))]
    = ([mkComment [] (Some (offsetPosition 1 3 (js ''ab'')))], False) \<and>
   syncCommentPositionsWithEditorState (docOf [para [Text (js ''ab'') []]])
      [mkComment (js ''c1'') (Some \<lparr>textFragment = None, pos_from = Some 1, pos_to = Some 3,
                                         path = None, startOffset = None, endOffset = None\<rparr>)]
    = ([mkComment (js ''c1'') (Some (orphanedPosition (js ''[ORPHANED] No original text'')))], True)"
  by (simp add: example_defs)

text \<open>
  C3 as stated fails: when a marker with the id of an Orphaned comment is in the document
  again, the branch \<open>isAlreadyOrphaned || ...\<close> gives the comment numeric coordinates again.
\<close>

theorem orphaned_rebinding_counterexample:
  "syncCommentPositionsWithEditorState
     (docOf [para [Text (js ''xy'') [], Text (js ''ab'') [CommentMark (Some (js ''c1''))]]])
     [mkComment (js ''c1'') (Some (orphanedPosition (js ''[ORPHANED] ab'')))]
   = ([mkComment (js ''c1'') (Some (offsetPosition 3 5 (js ''ab'')))], True)"
  by (simp add: example_defs)

text \<open>
  C3, as amended. An Orphaned comment (position present, \<open>from\<close> cleared) is left as it is by
  every run of the synchronizer over any sequence of documents in which no text leaf
  carries a marker with its id, whatever text they contain: identity is the marker, never
  the text. When a text leaf carries a marker with its (non-empty) id again, the run
  re-binds the comment to the coalesced range of that marker.
\<close>

theorem orphaned_stays_without_marker:
  assumes i: "i < length cs"
    and orph: "isAlreadyOrphaned (cs ! i)"
  shows "(list_all (\<lambda>d. \<not> carriesMarker d (comment_id (cs ! i))) ds \<longrightarrow> syncRuns ds cs ! i = cs ! i) \<and>
         (carriesMarker d (comment_id (cs ! i)) \<and> comment_id (cs ! i) \<noteq> [] \<longrightarrow>
            (\<exists>p f t. position (fst (syncCommentPositionsWithEditorState d cs) ! i) = Some p \<and>
                      pos_from p = Some f \<and> pos_to p = Some t \<and> 
                      coalesce (markerRuns d (comment_id (cs ! i))) = Some (nat f, nat t)))"
proof
  show "list_all (\<lambda>d. \<not> carriesMarker d (comment_id (cs ! i))) ds \<longrightarrow> syncRuns ds cs ! i = cs ! i"
    using i orph
  proof (induction ds arbitrary: cs)
    case Nil
    show ?case by (simp add: syncRuns_def)
  next
    case (Cons d' ds)
    let ?cs' = "fst (syncCommentPositionsWithEditorState d' cs)"
    show ?case
    proof
      assume all: "list_all (\<lambda>d. \<not> carriesMarker d (comment_id (cs ! i))) (d' # ds)"
      have none: "currentMarksInDoc d' (comment_id (cs ! i)) = None"
      proof (cases "comment_id (cs ! i) = []")
        case True
        have "\<And>nps m. m [] = None \<Longrightarrow> fold scanNode nps m [] = None"
        proof -
          fix nps :: "(node \<times> nat) list" and m :: markInfo
          have r: "\<And>f t mk m. recordMark f t mk m [] = m []"
          proof -
            fix f t mk and m :: markInfo
            show "recordMark f t mk m [] = m []"
              by (cases "(f, t, mk, m)" rule: recordMark.cases) (auto split: option.splits)
          qed
          have ms: "\<And>f t ms m. fold (recordMark f t) ms m [] = m []"
          proof -
            fix f t ms and m :: markInfo
            show "fold (recordMark f t) ms m [] = m []"
              by (induction ms arbitrary: m rule: rev_induct) (simp_all add: r del: recordMark.simps)
          qed
          have "fold scanNode nps m [] = m []"
          proof (induction nps arbitrary: m)
            case Nil show ?case by simp
          next
            case (Cons np nps)
            obtain n pos where "np = (n, pos)" by (cases np)
            then show ?case using Cons by (cases n) (simp_all add: ms del: recordMark.simps)
          qed
          then show "m [] = None \<Longrightarrow> fold scanNode nps m [] = None" by simp
        qed
        then show ?thesis using True by (simp add: currentMarksInDoc_def)
      next
        case False
        then show ?thesis using all by (simp add: currentMarksInDoc_None)
      qed
      have same: "?cs' ! i = cs ! i"
        using Cons.prems none by (simp add: sync_nth syncComment_orphaned_absent)
      have len: "i < length ?cs'" using Cons.prems by (simp add: sync_length)
      have "list_all (\<lambda>d. \<not> carriesMarker d (comment_id (?cs' ! i))) ds"
        using all same by simp
      with Cons.IH [OF len] Cons.prems(2) same
      have "syncRuns ds ?cs' ! i = ?cs' ! i" by simp
      then show "syncRuns (d' # ds) cs ! i = cs ! i"
        using same by (simp add: syncRuns_def)
    qed
  qed
next
  show "carriesMarker d (comment_id (cs ! i)) \<and> comment_id (cs ! i) \<noteq> [] \<longrightarrow>
            (\<exists>p f t. position (fst (syncCommentPositionsWithEditorState d cs) ! i) = Some p \<and>
                      pos_from p = Some f \<and> pos_to p = Some t \<and> 
                      coalesce (markerRuns d (comment_id (cs ! i))) = Some (nat f, nat t))"
  proof
    assume a: "carriesMarker d (comment_id (cs ! i)) \<and> comment_id (cs ! i) \<noteq> []"
    then obtain f t where ft: "currentMarksInDoc d (comment_id (cs ! i)) = Some (f, t)"
      using currentMarksInDoc_None [of "comment_id (cs ! i)" d] by fastforce
    then have co: "coalesce (markerRuns d (comment_id (cs ! i))) = Some (f, t)"
      using a by (simp add: currentMarksInDoc_coalesce)
    have "fst (syncComment d (currentMarksInDoc d) (cs ! i)) =
          (cs ! i)\<lparr>position := Some \<lparr>textFragment = Some (textBetween d f t (js '' '')),
                       pos_from = Some (int f), pos_to = Some (int t),
                       path = None, startOffset = None, endOffset = None\<rparr>\<rparr>"
      using a ft orph by (simp add: syncComment_def)
    then show "\<exists>p f t. position (fst (syncCommentPositionsWithEditorState d cs) ! i) = Some p \<and>
                      pos_from p = Some f \<and> pos_to p = Some t \<and> 
                      coalesce (markerRuns d (comment_id (cs ! i))) = Some (nat f, nat t)"
      using i co by (simp add: sync_nth)
  qed
qed

theorem orphaned_stays_without_marker_witness:
  "syncRuns [docOf [para [Text (js ''ab'') []]],
             docOf [para [Text (js ''ab'') [CommentMark (Some (js ''c2''))]], para []]]
            [mkComment (js ''c1'') (Some (orphanedPosition (js ''[ORPHANED] ab'')))] ! 0
     = mkComment (js ''c1'') (Some (orphanedPosition (js ''[ORPHANED] ab''))) \<and>
   (\<exists>p f t. position (fst (syncCommentPositionsWithEditorState
                 (docOf [para [Text (js ''xy'') [], Text (js ''ab'') [CommentMark (Some (js ''c1''))]]])
                 [mkComment (js ''c1'') (Some (orphanedPosition (js ''[ORPHANED] ab'')))]) ! 0) = Some p \<and>
       pos_from p = Some f \<and> pos_to p = Some t \<and> (nat f, nat t) = (3, 5))"
proof -
  let ?cs = "[mkComment (js ''c1'') (Some (orphanedPosition (js ''[ORPHANED] ab'')))]"
  let ?ds = "[docOf [para [Text (js ''ab'') []]],
             docOf [para [Text (js ''ab'') [CommentMark (Some (js ''c2''))]], para []]]"
  let ?d = "docOf [para [Text (js ''xy'') [], Text (js ''ab'') [CommentMark (Some (js ''c1''))]]]"
  have 1: "(0::nat) < length ?cs" by simp
  have 2: "isAlreadyOrphaned (?cs ! 0)" by (simp add: example_defs)
  have 3: "list_all (\<lambda>d. \<not> carriesMarker d (comment_id (?cs ! 0))) ?ds"
    by (simp add: example_defs)
  have 4: "carriesMarker ?d (comment_id (?cs ! 0)) \<and> comment_id (?cs ! 0) \<noteq> []"
    by (simp add: example_defs)
  have 5: "coalesce (markerRuns ?d (comment_id (?cs ! 0))) = Some (3, 5)"
    by (simp add: example_defs coalesce_def)
  from orphaned_stays_without_marker [OF 1 2, of ?ds ?d] 3 4 5
  show ?thesis by simp
qed

section \<open>Properties of the loaders\<close>

lemma isString_typeof: "isString v \<longleftrightarrow> (\<exists>x. v = Some x \<and> typeof x = TString)"
  by (cases v rule: isString.cases) auto

lemma isNumber_typeof: "isNumber v \<longleftrightarrow> (\<exists>x. v = Some x \<and> typeof x = TNumber)"
  by (cases v rule: isNumber.cases) auto

lemma absentOrTyped_obj:
  "absentOrTyped k TNumber (JObj kvs) \<longleftrightarrow> map_of kvs k = None \<or> isNumber (map_of kvs k)"
  "absentOrTyped k TString (JObj kvs) \<longleftrightarrow> map_of kvs k = None \<or> isString (map_of kvs k)"
  by (auto simp: absentOrTyped_def isNumber_typeof isString_typeof split: option.splits)

lemma validPosition_iff: "validPosition p \<longleftrightarrow> structurallyValidPosition p"
proof (cases p)
  case (JObj kvs)
  show ?thesis
    unfolding JObj validPosition_def by (auto simp add: absentOrTyped_obj)
qed (simp_all add: validPosition_def absentOrTyped_def)

lemma hasTyped_obj:
  "hasTyped k {TString} (JObj kvs) \<longleftrightarrow> isString (map_of kvs k)"
  "hasTyped k {TString, TNumber} (JObj kvs) \<longleftrightarrow> isString (map_of kvs k) \<or> isNumber (map_of kvs k)"
  by (auto simp: hasTyped_def isNumber_typeof isString_typeof split: option.splits)

lemma validCommentData_iff: "validCommentData v \<longleftrightarrow> structurallyValid v"
proof (cases v)
  case (JObj kvs)
  show ?thesis
    unfolding JObj validCommentData_def
    by (simp add: hasTyped_obj validPosition_iff split: option.splits)
qed (simp_all add: validCommentData_def hasTyped_def)

lemma load_filter:
  "map the (filter (\<lambda>c. c \<noteq> None) (map loadOne rs)) = map buildComment (filter structurallyValid rs)"
  by (induction rs) (simp_all add: loadOne_def validCommentData_iff)

text \<open>
  The validating copy returns exactly the structurally valid records of the batch, in
  order, each as the object the loader builds from it; an invalid record is dropped and
  nothing else is.
\<close>

theorem loadCommentsFromStorage_drops_invalid:
  "loadCommentsFromStorage (Parsed (JArr rs)) = map buildComment (filter structurallyValid rs)"
  using load_filter [of rs] by simp

text \<open>
  C9, at the failing input. A record that fails structural validation should be dropped
  and the valid records of the batch returned. On a batch of \<open>null\<close> and a valid record the
  validating copy returns the valid record; the copy without validation returns nothing,
  and on a batch of \<open>{}\<close> and the valid record it returns both, the first with every field
  \<open>undefined\<close>.
\<close>

theorem loadCommentsFromStorage_unchecked_aborts:
  "structurallyValid validRecord \<and> \<not> structurallyValid JNull \<and> \<not> structurallyValid (JObj []) \<and>
   loadCommentsFromStorage (Parsed (JArr [JNull, validRecord])) = [buildComment validRecord] \<and>
   loadCommentsFromStorage_unchecked (Parsed (JArr [JNull, validRecord])) = [] \<and>
   loadCommentsFromStorage_unchecked (Parsed (JArr [JObj [], validRecord]))
     = [\<lparr>ld_id = None, ld_author = None, ld_text = None, ld_createdAt = None, ld_position = None\<rparr>,
        buildComment validRecord]"
  by (simp add: validRecord_def js_def loadOne_def validCommentData_def hasTyped_def validPosition_def
       absentOrTyped_def loadOne_unchecked_def buildComment_def buildPosition_def)

section \<open>Properties of NodePath restoration\<close>

lemma splitOn_nonempty: "splitOn sep acc s \<noteq> []"
  by (induction sep acc s rule: splitOn.induct) auto

lemma stripPrefix_single: "stripPrefix [a] s = Some r \<Longrightarrow> s \<noteq> [] \<and> hd s = a"
  by (cases s) (auto simp: stripPrefix_def split: if_splits)

lemma matchSegment_group2:
  assumes "matchSegment segment = Some (tagName, childIndexStr)"
  shows "childIndexStr \<noteq> [] \<and> hd childIndexStr = BACKSLASH"
proof -
  from assms obtain r where "stripPrefix [BACKSLASH] childIndexStr = Some r"
    unfolding matchSegment_def Let_def
    by (auto split: if_splits option.splits)
  then show ?thesis by (rule stripPrefix_single)
qed

lemma parseInt_backslash:
  assumes "s \<noteq> []" and "hd s = BACKSLASH"
  shows "parseInt s = NaN"
proof -
  obtain c cs where s: "s = c # cs" using assms(1) by (cases s) auto
  have c: "c = 0x5C" using assms(2) s by (simp add: BACKSLASH_def)
  show ?thesis
    unfolding s c by (simp add: parseInt_def isWhiteSpace_def isDigit_def)
qed

lemma descend_fails:
  "segments \<noteq> [] \<Longrightarrow> \<exists>log'. descend atDoc n pos segments log = Inl log'"
proof (cases segments)
  case Nil
  then show "segments \<noteq> [] \<Longrightarrow> ?thesis" by simp
next
  case (Cons segment rest)
  show ?thesis
  proof (cases "matchSegment segment")
    case None
    then show ?thesis using Cons by simp
  next
    case (Some m)
    obtain tagName childIndexStr where m: "m = (tagName, childIndexStr)" by (cases m)
    have "parseInt childIndexStr = NaN"
      using matchSegment_group2 [of segment tagName childIndexStr] Some m
      by (simp add: parseInt_backslash)
    then show ?thesis using Cons Some m by simp
  qed
qed

text \<open>
  No path but the empty one is ever restored: the first segment is either rejected by the
  pattern or yields \<open>NaN\<close> as its index.
\<close>

lemma nonempty_path_never_restores:
  assumes "position c = Some p" and "path p = Some pth" and "pth \<noteq> []"
  shows "\<exists>log. restoreMarkFromNodePath d c = (False, d, log)"
proof -
  have "split pth (js '' > '') \<noteq> []"
    by (simp add: split_def splitOn_nonempty)
  then obtain log where "descend True d 0 (split pth (js '' > '')) [] = Inl log"
    using descend_fails by blast
  then show ?thesis
    using assms by (simp add: restoreMarkFromNodePath_def)
qed

text \<open>
  C7. Restoration with the whole-document sentinel (the empty path) applies the comment
  mark over \<open>[0, doc.content.size)\<close> and reports success whenever the document content is
  non-empty; against an empty document it applies no mark (the document is returned as it
  is) and reports failure.
\<close>

theorem restore_whole_document:
  assumes "position c = Some p" and "path p = Some []"
  shows "(0 < contentSize d \<longrightarrow>
            restoreMarkFromNodePath d c = (True, setCommentMark d 0 (contentSize d) (comment_id c), [])) \<and>
         (contentSize d = 0 \<longrightarrow> restoreMarkFromNodePath d c = (False, d, []))"
  using assms by (simp add: restoreMarkFromNodePath_def)

theorem restore_whole_document_witness:
  "restoreMarkFromNodePath (docOf [para [Text (js ''ab'') []], para [Text (js ''c'') [OtherMark (js ''bold'')]]])
       (mkComment (js ''c1'') (Some (nodePathPosition [] 7 (js ''ab c''))))
     = (True, docOf [para [Text (js ''ab'') [CommentMark (Some (js ''c1''))]],
                     para [Text (js ''c'') [OtherMark (js ''bold''), CommentMark (Some (js ''c1''))]]], []) \<and>
   restoreMarkFromNodePath (docOf []) (mkComment (js ''c1'') (Some (nodePathPosition [] 0 [])))
     = (False, docOf [], [])"
proof -
  let ?c = "mkComment (js ''c1'') (Some (nodePathPosition [] 7 (js ''ab c'')))"
  let ?e = "mkComment (js ''c1'') (Some (nodePathPosition [] 0 []))"
  let ?d = "docOf [para [Text (js ''ab'') []], para [Text (js ''c'') [OtherMark (js ''bold'')]]]"
  have p: "position ?c = Some (nodePathPosition [] 7 (js ''ab c''))"
    by (simp add: mkComment_def)
  have p0: "position ?e = Some (nodePathPosition [] 0 [])"
    by (simp add: mkComment_def)
  have q: "path (nodePathPosition [] 7 (js ''ab c'')) = Some []"
    by (simp add: nodePathPosition_def)
  have q0: "path (nodePathPosition [] 0 []) = Some []"
    by (simp add: nodePathPosition_def)
  have size: "contentSize ?d = 7" and size0: "contentSize (docOf []) = 0"
    by (simp_all add: contentSize_def docOf_def para_def js_def)
  have mark: "setCommentMark ?d 0 7 (comment_id ?c)
       = docOf [para [Text (js ''ab'') [CommentMark (Some (js ''c1''))]],
                para [Text (js ''c'') [OtherMark (js ''bold''), CommentMark (Some (js ''c1''))]]]"
    by (simp add: setCommentMark_def docOf_def para_def js_def mkComment_def textPiece_def sliceStr_def
          addToSet_def)
  from restore_whole_document [OF p q, of ?d] restore_whole_document [OF p0 q0, of "docOf []"]
  show ?thesis
    unfolding size size0 mark by simp
qed

text \<open>
  C8, at the failing input. The segment pattern of the source is written with doubled
  backslashes, \<^verbatim>\<open>/^([a-zA-Z0-9_-]+):nth-child\\((\\d+)\\)$/\<close>, so it asks for a literal
  backslash where the parenthesis of \<open>nth-child(N)\<close> stands: the segments
  \<open>h1:nth-child(1)\<close> (tag mismatch, index in range) and \<open>p:nth-child(1)\<close> (the very path
  the path calculation produces for the first paragraph) are both rejected as invalid
  segments. The descent is aborted, no tag mismatch is logged and no mark is applied.
\<close>

theorem restore_rejects_wellformed_segment:
  "restoreMarkFromNodePath (docOf [para [Text (js ''ab'') []]])
       (mkComment (js ''c1'') (Some (nodePathPosition (js ''h1:nth-child(1)'') 4 (js ''ab''))))
     = (False, docOf [para [Text (js ''ab'') []]], [InvalidPathSegment (js ''h1:nth-child(1)'')]) \<and>
   restoreMarkFromNodePath (docOf [para [Text (js ''ab'') []]])
       (mkComment (js ''c1'') (Some (nodePathPosition (js ''p:nth-child(1)'') 4 (js ''ab''))))
     = (False, docOf [para [Text (js ''ab'') []]], [InvalidPathSegment (js ''p:nth-child(1)'')])"
  by (simp add: restoreMarkFromNodePath_def mkComment_def nodePathPosition_def js_def split_def
        matchSegment_def isTagChar_def stripPrefix_def BACKSLASH_def)

text \<open>
  Restoring a batch: when every comment carries a non-empty path, no comment is restored
  and the document is left as it is.
\<close>

lemma restoreAll_nonempty_paths:
  assumes "\<forall>c \<in> set cs. \<exists>p pth. position c = Some p \<and> path p = Some pth \<and> pth \<noteq> []"
  shows "\<exists>log'. restoreAll cs (d, n, log) = (d, n, log')"
  using assms
proof (induction cs arbitrary: log)
  case Nil
  show ?case by simp
next
  case (Cons c cs)
  from Cons.prems obtain p pth where "position c = Some p" "path p = Some pth" "pth \<noteq> []"
    by auto
  then obtain w where w: "restoreMarkFromNodePath d c = (False, d, w)"
    using nonempty_path_never_restores by blast
  from Cons.prems have "\<forall>c \<in> set cs. \<exists>p pth. position c = Some p \<and> path p = Some pth \<and> pth \<noteq> []"
    by simp
  from Cons.IH [OF this, of "log @ w"] w show ?case by simp
qed

section \<open>Removing marks over the extent of one text node\<close>

lemma sizes_simps [simp]:
  "sizes [] = 0"
  "sizes (n # ns) = nodeSize n + sizes ns"
  "sizes (xs @ ys) = sizes xs + sizes ys"
  by (simp_all add: sizes_def)

lemma nodeSize_Elem: "nodeSize (Elem ty lv tb al cs) = 2 + sizes cs"
  by (simp add: sizes_def)

lemma nodesFrom_bounds:
  "(n, p) \<in> set (nodesFrom pos ns) \<Longrightarrow> pos \<le> p \<and> p + nodeSize n \<le> pos + sizes ns"
proof (induction pos ns rule: nodesFrom.induct)
  case (1 pos)
  then show ?case by simp
next
  case (2 pos s ms ns)
  then show ?case by (auto simp del: nodeSize.simps(3))
next
  case (3 pos ty inl ms ns)
  then show ?case by (auto simp del: nodeSize.simps(3))
next
  case (4 pos ty lv tb al cs ns)
  from "4.prems" consider
      "(n, p) = (Elem ty lv tb al cs, pos)"
    | "(n, p) \<in> set (nodesFrom (pos + 1) cs)"
    | "(n, p) \<in> set (nodesFrom (pos + nodeSize (Elem ty lv tb al cs)) ns)"
    by auto
  then show ?case
  proof cases
    case 1
    then show ?thesis by simp
  next
    case 2
    from "4.IH"(1) [OF 2] show ?thesis by (simp add: nodeSize_Elem del: nodeSize.simps(3))
  next
    case 3
    from "4.IH"(2) [OF 3] show ?thesis by (simp del: nodeSize.simps(3))
  qed
qed

lemma sizes_stripAt [simp]: "sizes (stripAt S pos ns) = sizes ns"
  by (induction S pos ns rule: stripAt.induct) (simp_all add: sizes_def)

lemma removeCommentMarks_idem [simp]: "removeCommentMarks (removeCommentMarks ms) = removeCommentMarks ms"
  by (simp add: removeCommentMarks_def)

lemma markRange_target:
  assumes "emptyTextFree ns"
    and "(Text s ms, a) \<in> set (nodesFrom pos ns) \<or> a + length s \<le> pos \<or> pos + sizes ns \<le> a"
    and "s \<noteq> []"
  shows "markRange removeCommentMarks False a (a + length s) True pos (stripAt S pos ns)
           = stripAt (insert a S) pos ns"
  using assms
proof (induction pos ns rule: nodesFrom.induct)
  case (1 pos)
  show ?case by simp
next
  case (2 pos t mt ns)
  from "2.prems"(1) have t: "t \<noteq> []" and wf: "emptyTextFree ns" by simp_all
  show ?case
  proof (cases "a = pos")
    case True
    have here: "(Text s ms, a) = (Text t mt, pos)"
    proof (rule ccontr)
      assume no: "(Text s ms, a) \<noteq> (Text t mt, pos)"
      with "2.prems"(2) True t "2.prems"(3)
      have "(Text s ms, a) \<in> set (nodesFrom (pos + length t) ns)" by auto
      from nodesFrom_bounds [OF this] True t show False by simp
    qed
    then have st: "s = t" by simp
    have rest: "markRange removeCommentMarks False a (a + length s) True (pos + length t)
                  (stripAt S (pos + length t) ns) = stripAt (insert a S) (pos + length t) ns"
      using "2.IH" [OF wf _ "2.prems"(3)] True st by simp
    show ?thesis
      using rest True st t by (simp add: textPiece_def sliceStr_def)
  next
    case False
    have far: "\<not> (a < pos + length t \<and> pos < a + length s)"
    proof -
      from "2.prems"(2) False consider
          "(Text s ms, a) \<in> set (nodesFrom (pos + length t) ns)"
        | "a + length s \<le> pos" | "pos + sizes (Text t mt # ns) \<le> a"
        by auto
      then show ?thesis
      proof cases
        case 1
        from nodesFrom_bounds [OF 1] show ?thesis by simp
      qed simp_all
    qed
    have cond: "(Text s ms, a) \<in> set (nodesFrom (pos + length t) ns)
        \<or> a + length s \<le> pos + length t \<or> pos + length t + sizes ns \<le> a"
      using "2.prems"(2) False by auto
    have rest: "markRange removeCommentMarks False a (a + length s) True (pos + length t)
                  (stripAt S (pos + length t) ns) = stripAt (insert a S) (pos + length t) ns"
      using "2.IH" [OF wf cond "2.prems"(3)] .
    show ?thesis
      using rest far False by auto
  qed
next
  case (3 pos ty inl mt ns)
  from "3.prems"(1) have wf: "emptyTextFree ns" by simp
  have far: "\<not> (a \<le> pos \<and> pos < a + length s)"
  proof -
    from "3.prems"(2) consider
        "(Text s ms, a) \<in> set (nodesFrom (pos + 1) ns)"
      | "a + length s \<le> pos" | "pos + sizes (Leaf ty inl mt # ns) \<le> a"
      by auto
    then show ?thesis
    proof cases
      case 1
      from nodesFrom_bounds [OF 1] show ?thesis by simp
    qed simp_all
  qed
  have cond: "(Text s ms, a) \<in> set (nodesFrom (pos + 1) ns)
      \<or> a + length s \<le> pos + 1 \<or> pos + 1 + sizes ns \<le> a"
    using "3.prems"(2) by auto
  have rest: "markRange removeCommentMarks False a (a + length s) True (pos + 1)
                (stripAt S (pos + 1) ns) = stripAt (insert a S) (pos + 1) ns"
    using "3.IH" [OF wf cond "3.prems"(3)] .
  show ?case
    using rest far by auto
next
  case (4 pos ty lv tb al cs ns)
  let ?e = "Elem ty lv tb al cs"
  from "4.prems"(1) have wfc: "emptyTextFree cs" and wf: "emptyTextFree ns" by simp_all
  from "4.prems"(2) consider
      (inside) "(Text s ms, a) \<in> set (nodesFrom (pos + 1) cs)"
    | (after) "(Text s ms, a) \<in> set (nodesFrom (pos + nodeSize ?e) ns)"
    | (before) "a + length s \<le> pos"
    | (beyond) "pos + sizes (?e # ns) \<le> a"
    by auto
  then have cond: "((Text s ms, a) \<in> set (nodesFrom (pos + 1) cs)
        \<or> a + length s \<le> pos + 1 \<or> pos + 1 + sizes cs \<le> a) \<and>
      ((Text s ms, a) \<in> set (nodesFrom (pos + nodeSize ?e) ns)
        \<or> a + length s \<le> pos + nodeSize ?e \<or> pos + nodeSize ?e + sizes ns \<le> a)"
  proof cases
    case inside
    from nodesFrom_bounds [OF inside] inside show ?thesis
      by (simp add: nodeSize_Elem del: nodeSize.simps(3))
  next
    case after
    from nodesFrom_bounds [OF after] after show ?thesis
      by (simp add: nodeSize_Elem del: nodeSize.simps(3))
  next
    case before
    then show ?thesis by (simp add: nodeSize_Elem del: nodeSize.simps(3))
  next
    case beyond
    then show ?thesis by (simp add: nodeSize_Elem del: nodeSize.simps(3))
  qed
  have kids: "markRange removeCommentMarks False a (a + length s) True (pos + 1)
                (stripAt S (pos + 1) cs) = stripAt (insert a S) (pos + 1) cs"
    using "4.IH"(1) [OF wfc _ "4.prems"(3)] cond by blast
  have rest: "markRange removeCommentMarks False a (a + length s) True (pos + nodeSize ?e)
                (stripAt S (pos + nodeSize ?e) ns) = stripAt (insert a S) (pos + nodeSize ?e) ns"
    using "4.IH"(2) [OF wf _ "4.prems"(3)] cond by blast
  have size: "nodeSize (Elem ty lv tb al (stripAt S (pos + 1) cs)) = nodeSize ?e"
    using sizes_stripAt [of S "pos + 1" cs] by (simp add: sizes_def)
  show ?case
    using kids rest size by (simp del: nodeSize.simps(3))
qed

section \<open>The removal steps of a deletion, folded\<close>

lemma matchedPositions_Nil [simp]: "matchedPositions cid [] = {}"
  by (simp add: matchedPositions_def)

lemma matchedPositions_Cons:
  "matchedPositions cid ((n, p) # vs) =
     (case n of Text s ms \<Rightarrow> if CommentMark (Some cid) \<in> set ms then {p} else {} | _ \<Rightarrow> {})
       \<union> matchedPositions cid vs"
  by (cases n) (auto simp: matchedPositions_def)

lemma text_nonempty:
  "emptyTextFree ns \<Longrightarrow> (Text s ms, p) \<in> set (nodesFrom pos ns) \<Longrightarrow> s \<noteq> []"
  by (induction pos ns rule: nodesFrom.induct) (auto simp del: nodeSize.simps(3))

lemma fold_removeVisit:
  assumes wf: "emptyTextFree cs" and sub: "set vs \<subseteq> set (nodesFrom 0 cs)"
  shows "fold (removeVisit cid) vs (Elem ty lv tb al (stripAt S 0 cs), r)
           = (Elem ty lv tb al (stripAt (S \<union> matchedPositions cid vs) 0 cs),
              r \<or> matchedPositions cid vs \<noteq> {})"
  using sub
proof (induction vs arbitrary: S r)
  case Nil
  show ?case by simp
next
  case (Cons v vs)
  obtain n p where v: "v = (n, p)" by (cases v)
  from Cons.prems have sub': "set vs \<subseteq> set (nodesFrom 0 cs)" by simp
  show ?case
  proof (cases n)
    case (Text s ms)
    show ?thesis
    proof (cases "CommentMark (Some cid) \<in> set ms")
      case True
      have mem: "(Text s ms, p) \<in> set (nodesFrom 0 cs)"
        using Cons.prems v Text by simp
      have ne: "s \<noteq> []" using text_nonempty [OF wf mem] .
      have step: "markRange removeCommentMarks False p (p + length s) True 0 (stripAt S 0 cs)
                    = stripAt (insert p S) 0 cs"
        using markRange_target [OF wf _ ne, of ms p 0 S] mem by simp
      have "fold (removeVisit cid) (v # vs) (Elem ty lv tb al (stripAt S 0 cs), r)
             = fold (removeVisit cid) vs (Elem ty lv tb al (stripAt (insert p S) 0 cs), True)"
        using True step by (simp add: v Text)
      also have "\<dots> = (Elem ty lv tb al (stripAt (insert p S \<union> matchedPositions cid vs) 0 cs),
                         True \<or> matchedPositions cid vs \<noteq> {})"
        by (rule Cons.IH [OF sub'])
      finally show ?thesis
        using True by (simp add: v Text matchedPositions_Cons)
    next
      case False
      then show ?thesis
        using Cons.IH [OF sub', of S r] by (simp add: v Text matchedPositions_Cons)
    qed
  next
    case (Leaf lty inl ms)
    then show ?thesis
      using Cons.IH [OF sub', of S r] by (simp add: v matchedPositions_Cons)
  next
    case (Elem ety elv etb eal ecs)
    then show ?thesis
      using Cons.IH [OF sub', of S r] by (simp add: v matchedPositions_Cons)
  qed
qed

lemma text_unique:
  assumes "emptyTextFree ns"
    and "(Text s ms, p) \<in> set (nodesFrom pos ns)"
    and "(Text s' ms', p) \<in> set (nodesFrom pos ns)"
  shows "s = s' \<and> ms = ms'"
  using assms
proof (induction pos ns rule: nodesFrom.induct)
  case (1 pos)
  then show ?case by simp
next
  case (2 pos t mt ns)
  from "2.prems"(1) have t: "t \<noteq> []" and wf: "emptyTextFree ns" by simp_all
  have rest: "\<And>x mx. (Text x mx, p) \<in> set (nodesFrom (pos + length t) ns) \<Longrightarrow> p \<noteq> pos"
  proof -
    fix x mx assume "(Text x mx, p) \<in> set (nodesFrom (pos + length t) ns)"
    from nodesFrom_bounds [OF this] t show "p \<noteq> pos" by (cases t) simp_all
  qed
  show ?case
  proof (cases "p = pos")
    case True
    with "2.prems" rest show ?thesis by auto
  next
    case False
    with "2.prems" have "(Text s ms, p) \<in> set (nodesFrom (pos + length t) ns)"
      and "(Text s' ms', p) \<in> set (nodesFrom (pos + length t) ns)" by auto
    with "2.IH" [OF wf] show ?thesis by blast
  qed
next
  case (3 pos ty inl mt ns)
  then show ?case by auto
next
  case (4 pos ty lv tb al cs ns)
  let ?e = "Elem ty lv tb al cs"
  from "4.prems"(1) have wfc: "emptyTextFree cs" and wf: "emptyTextFree ns" by simp_all
  have apart: "\<And>x mx y my. (Text x mx, p) \<in> set (nodesFrom (pos + 1) cs) \<Longrightarrow>
                 (Text y my, p) \<in> set (nodesFrom (pos + nodeSize ?e) ns) \<Longrightarrow> False"
  proof -
    fix x mx y my
    assume a: "(Text x mx, p) \<in> set (nodesFrom (pos + 1) cs)"
      and b: "(Text y my, p) \<in> set (nodesFrom (pos + nodeSize ?e) ns)"
    from nodesFrom_bounds [OF a] nodesFrom_bounds [OF b]
    show False by (simp add: nodeSize_Elem del: nodeSize.simps(3))
  qed
  from "4.prems"(2) consider
      (a) "(Text s ms, p) \<in> set (nodesFrom (pos + 1) cs)"
    | (b) "(Text s ms, p) \<in> set (nodesFrom (pos + nodeSize ?e) ns)" by auto
  then show ?case
  proof cases
    case a
    with "4.prems"(3) apart have "(Text s' ms', p) \<in> set (nodesFrom (pos + 1) cs)" by auto
    with "4.IH"(1) [OF wfc a] show ?thesis by blast
  next
    case b
    with "4.prems"(3) apart have "(Text s' ms', p) \<in> set (nodesFrom (pos + nodeSize ?e) ns)" by auto
    with "4.IH"(2) [OF wf b] show ?thesis by blast
  qed
qed

lemma stripAt_stripped:
  assumes "\<And>s ms p. (Text s ms, p) \<in> set (nodesFrom pos ns) \<Longrightarrow>
              (p \<in> S \<longleftrightarrow> CommentMark (Some cid) \<in> set ms)"
  shows "stripAt S pos ns = stripped cid ns"
  using assms
proof (induction pos ns rule: nodesFrom.induct)
  case (1 pos)
  show ?case by simp
next
  case (2 pos t mt ns)
  have "stripAt S (pos + length t) ns = stripped cid ns"
  proof (rule "2.IH")
    fix s ms p assume "(Text s ms, p) \<in> set (nodesFrom (pos + length t) ns)"
    then show "p \<in> S \<longleftrightarrow> CommentMark (Some cid) \<in> set ms"
      using "2.prems" [of s ms p] by simp
  qed
  moreover have "pos \<in> S \<longleftrightarrow> CommentMark (Some cid) \<in> set mt"
    using "2.prems" [of t mt pos] by simp
  ultimately show ?case by simp
next
  case (3 pos ty inl mt ns)
  have "stripAt S (pos + 1) ns = stripped cid ns"
  proof (rule "3.IH")
    fix s ms p assume "(Text s ms, p) \<in> set (nodesFrom (pos + 1) ns)"
    then show "p \<in> S \<longleftrightarrow> CommentMark (Some cid) \<in> set ms"
      using "3.prems" [of s ms p] by simp
  qed
  then show ?case by simp
next
  case (4 pos ty lv tb al cs ns)
  have "stripAt S (pos + 1) cs = stripped cid cs"
  proof (rule "4.IH"(1))
    fix s ms p assume "(Text s ms, p) \<in> set (nodesFrom (pos + 1) cs)"
    then show "p \<in> S \<longleftrightarrow> CommentMark (Some cid) \<in> set ms"
      using "4.prems" [of s ms p] by (simp del: nodeSize.simps(3))
  qed
  moreover have "stripAt S (pos + nodeSize (Elem ty lv tb al cs)) ns = stripped cid ns"
  proof (rule "4.IH"(2))
    fix s ms p assume "(Text s ms, p) \<in> set (nodesFrom (pos + nodeSize (Elem ty lv tb al cs)) ns)"
    then show "p \<in> S \<longleftrightarrow> CommentMark (Some cid) \<in> set ms"
      using "4.prems" [of s ms p] by (simp del: nodeSize.simps(3))
  qed
  ultimately show ?case by (simp del: nodeSize.simps(3))
qed

lemma stripAt_empty: "stripAt {} pos ns = ns"
  by (induction "{} :: nat set" pos ns rule: stripAt.induct) simp_all

lemma removeCommentMarkFromDocument_Elem:
  assumes wf: "emptyTextFree cs"
  shows "removeCommentMarkFromDocument (Elem ty lv tb al cs) cid
           = (carriesMarker (Elem ty lv tb al cs) cid, Elem ty lv tb al (stripped cid cs))"
proof -
  let ?D = "nodesFrom 0 cs"
  let ?M = "matchedPositions cid ?D"
  have fold: "fold (removeVisit cid) ?D (Elem ty lv tb al cs, False)
                = (Elem ty lv tb al (stripAt ?M 0 cs), ?M \<noteq> {})"
    using fold_removeVisit [OF wf subset_refl, of cid ty lv tb al "{}" False]
    by (simp add: stripAt_empty)
  have all: "stripAt ?M 0 cs = stripped cid cs"
  proof (rule stripAt_stripped)
    fix s ms p assume mem: "(Text s ms, p) \<in> set ?D"
    show "p \<in> ?M \<longleftrightarrow> CommentMark (Some cid) \<in> set ms"
    proof
      assume "p \<in> ?M"
      then obtain s' ms' where m': "(Text s' ms', p) \<in> set ?D"
        and c: "CommentMark (Some cid) \<in> set ms'"
        by (auto simp: matchedPositions_def)
      from text_unique [OF wf mem m'] c show "CommentMark (Some cid) \<in> set ms" by simp
    next
      assume "CommentMark (Some cid) \<in> set ms"
      with mem show "p \<in> ?M" by (auto simp: matchedPositions_def)
    qed
  qed
  have runs: "\<And>vs. (markerRunsOf cid vs \<noteq> []) = (matchedPositions cid vs \<noteq> {})"
  proof -
    fix vs show "(markerRunsOf cid vs \<noteq> []) = (matchedPositions cid vs \<noteq> {})"
    proof (induction vs)
      case Nil show ?case by simp
    next
      case (Cons v vs)
      obtain n p where v: "v = (n, p)" by (cases v)
      show ?case using Cons by (cases n) (auto simp: v matchedPositions_Cons)
    qed
  qed
  have none: "?M = {} \<Longrightarrow> stripped cid cs = cs"
    using all by (simp add: stripAt_empty)
  show ?thesis
    using fold all none runs [of ?D]
    by (auto simp: removeCommentMarkFromDocument_def descendants_def carriesMarker_def markerRuns_def)
qed

lemma exclusive_filter:
  assumes "atMostOneCommentMark ms" and "CommentMark c \<in> set ms"
  shows "removeCommentMarks ms = filter (\<lambda>m. m \<noteq> CommentMark c) ms"
proof -
  have in_f: "CommentMark c \<in> set (filter isCommentMark ms)" using assms(2) by simp
  have "length (filter isCommentMark ms) \<le> 1" using assms(1) by (simp add: atMostOneCommentMark_def)
  with in_f have one: "filter isCommentMark ms = [CommentMark c]"
    by (cases "filter isCommentMark ms"; cases "tl (filter isCommentMark ms)") auto
  have only: "\<And>x. x \<in> set ms \<Longrightarrow> isCommentMark x \<Longrightarrow> x = CommentMark c"
  proof -
    fix x assume "x \<in> set ms" and "isCommentMark x"
    then have "x \<in> set (filter isCommentMark ms)" by simp
    then show "x = CommentMark c" unfolding one by simp
  qed
  show ?thesis
    unfolding removeCommentMarks_def
    by (rule filter_cong) (auto dest: only)
qed

lemma stripped_withoutMarker:
  "marksExclusive ns \<Longrightarrow> stripped cid ns = withoutMarker cid ns"
proof (induction cid ns rule: stripped.induct)
  case (2 cid s ms ns)
  have "(if CommentMark (Some cid) \<in> set ms then removeCommentMarks ms else ms)
          = filter (\<lambda>m. m \<noteq> CommentMark (Some cid)) ms"
  proof (cases "CommentMark (Some cid) \<in> set ms")
    case True
    with "2.prems" show ?thesis by (simp add: exclusive_filter)
  next
    case False
    then have "filter (\<lambda>m. m \<noteq> CommentMark (Some cid)) ms = ms"
      by (induction ms) auto
    with False show ?thesis by simp
  qed
  with 2 show ?case by simp
qed simp_all

lemma sizes_withoutMarker [simp]: "sizes (withoutMarker cid ns) = sizes ns"
  by (induction cid ns rule: withoutMarker.induct) (simp_all add: sizes_def)

lemma markerRunsOf_append [simp]:
  "markerRunsOf cid (xs @ ys) = markerRunsOf cid xs @ markerRunsOf cid ys"
  by (induction cid xs rule: markerRunsOf.induct) simp_all

lemma runs_withoutMarker_same:
  "markerRunsOf cid (nodesFrom pos (withoutMarker cid ns)) = []"
proof (induction pos ns rule: nodesFrom.induct)
  case (4 pos ty lv tb al cs ns)
  have "nodeSize (Elem ty lv tb al (withoutMarker cid cs)) = nodeSize (Elem ty lv tb al cs)"
    using sizes_withoutMarker [of cid cs] by (simp add: sizes_def)
  with 4 show ?case by (simp del: nodeSize.simps(3))
qed simp_all

lemma runs_withoutMarker_other:
  "other \<noteq> cid \<Longrightarrow>
   markerRunsOf other (nodesFrom pos (withoutMarker cid ns)) = markerRunsOf other (nodesFrom pos ns)"
proof (induction pos ns rule: nodesFrom.induct)
  case (4 pos ty lv tb al cs ns)
  have "nodeSize (Elem ty lv tb al (withoutMarker cid cs)) = nodeSize (Elem ty lv tb al cs)"
    using sizes_withoutMarker [of cid cs] by (simp add: sizes_def)
  with 4 show ?case by (simp del: nodeSize.simps(3))
qed auto

section \<open>Deleting a comment\<close>

lemma filter_distinct_remove1:
  "distinct (map f xs) \<Longrightarrow> x \<in> set xs \<Longrightarrow> filter (\<lambda>y. f y \<noteq> f x) xs = remove1 x xs"
proof (induction xs)
  case Nil
  then show ?case by simp
next
  case (Cons y ys)
  show ?case
  proof (cases "y = x")
    case True
    have "f x \<notin> f ` set ys" using Cons.prems(1) True by simp
    then have "\<And>z. z \<in> set ys \<Longrightarrow> f z \<noteq> f x" by (metis imageI)
    then have "filter (\<lambda>y. f y \<noteq> f x) ys = ys" by (simp add: filter_id_conv)
    with True show ?thesis by simp
  next
    case False
    with Cons.prems have "x \<in> set ys" and "f y \<noteq> f x" by auto
    with Cons False show ?thesis by simp
  qed
qed

lemma removeCommentMarkFromDocument_result:
  assumes "emptyTextFree (children d)" and "marksExclusive (children d)"
  shows "removeCommentMarkFromDocument d cid = (carriesMarker d cid, withoutMarkerDoc cid d)"
proof (cases d)
  case (Elem ty lv tb al cs)
  with assms show ?thesis
    by (simp add: removeCommentMarkFromDocument_Elem stripped_withoutMarker)
qed (simp_all add: removeCommentMarkFromDocument_def descendants_def carriesMarker_def markerRuns_def)

lemma markerRuns_withoutMarkerDoc:
  "markerRuns (withoutMarkerDoc cid d) cid = []"
  "other \<noteq> cid \<Longrightarrow> markerRuns (withoutMarkerDoc cid d) other = markerRuns d other"
  by (cases d; simp add: markerRuns_def descendants_def runs_withoutMarker_same runs_withoutMarker_other)+

text \<open>
  What a deletion does. On a document in which no leaf carries the markers of two comments
  (the comment mark declares no \<open>excludes\<close>, so marks of its type exclude one another and
  the editor never builds such a leaf), deleting a comment removes the marker bearing its
  id from every text leaf and changes nothing else in the document: every other mark of
  every leaf, the markers of every other comment and the marks of non-text inline leaves
  are as before. From the store it removes the records with that id and leaves the others
  as they are, in order: exactly one record when ids are unique.
\<close>

theorem delete_comment:
  assumes wf: "emptyTextFree (children (stateDoc st))"
    and excl: "marksExclusive (children (stateDoc st))"
  shows "stateDoc (handleDeleteComment cid st) = withoutMarkerDoc cid (stateDoc st) \<and>
         \<not> carriesMarker (stateDoc (handleDeleteComment cid st)) cid \<and>
         (\<forall>other. other \<noteq> cid \<longrightarrow>
            markerRuns (stateDoc (handleDeleteComment cid st)) other = markerRuns (stateDoc st) other) \<and>
         stateComments (handleDeleteComment cid st)
           = filter (\<lambda>c. comment_id c \<noteq> cid) (stateComments st) \<and>
         (\<forall>c. c \<in> set (stateComments st) \<and> comment_id c = cid \<and>
               distinct (map comment_id (stateComments st)) \<longrightarrow>
            stateComments (handleDeleteComment cid st) = remove1 c (stateComments st))"
proof -
  have d: "stateDoc (handleDeleteComment cid st) = withoutMarkerDoc cid (stateDoc st)"
    using removeCommentMarkFromDocument_result [OF wf excl, of cid]
    by (simp add: handleDeleteComment_def)
  have c: "stateComments (handleDeleteComment cid st)
             = filter (\<lambda>c. comment_id c \<noteq> cid) (stateComments st)"
    by (simp add: handleDeleteComment_def)
  have one: "\<And>c. c \<in> set (stateComments st) \<Longrightarrow> comment_id c = cid \<Longrightarrow>
               distinct (map comment_id (stateComments st)) \<Longrightarrow>
               filter (\<lambda>c. comment_id c \<noteq> cid) (stateComments st) = remove1 c (stateComments st)"
    using filter_distinct_remove1 [of comment_id "stateComments st"] by blast
  show ?thesis
    unfolding d c
    by (auto simp: carriesMarker_def markerRuns_withoutMarkerDoc one)
qed

theorem delete_comment_example:
  "handleDeleteComment (js ''c1'')
     \<lparr>stateDoc = docOf [para [Text (js ''ab'') [CommentMark (Some (js ''c1'')), OtherMark (js ''bold'')],
                                Text (js ''cd'') [CommentMark (Some (js ''c2''))]],
                          para [Text (js ''ef'') [CommentMark (Some (js ''c1''))]]],
      stateComments = [mkComment (js ''c1'') (Some (offsetPosition 1 8 (js ''ab ef''))),
                       mkComment (js ''c2'') (Some (offsetPosition 3 5 (js ''cd'')))]\<rparr>
   = \<lparr>stateDoc = docOf [para [Text (js ''ab'') [OtherMark (js ''bold'')],
                                Text (js ''cd'') [CommentMark (Some (js ''c2''))]],
                          para [Text (js ''ef'') []]],
      stateComments = [mkComment (js ''c2'') (Some (offsetPosition 3 5 (js ''cd'')))]\<rparr>"
proof -
  let ?d = "docOf [para [Text (js ''ab'') [CommentMark (Some (js ''c1'')), OtherMark (js ''bold'')],
                                Text (js ''cd'') [CommentMark (Some (js ''c2''))]],
                          para [Text (js ''ef'') [CommentMark (Some (js ''c1''))]]]"
  let ?cs = "[mkComment (js ''c1'') (Some (offsetPosition 1 8 (js ''ab ef''))),
              mkComment (js ''c2'') (Some (offsetPosition 3 5 (js ''cd'')))]"
  let ?st = "\<lparr>stateDoc = ?d, stateComments = ?cs\<rparr>"
  have wf: "emptyTextFree (children (stateDoc ?st))"
    by (simp add: docOf_def para_def js_def)
  have excl: "marksExclusive (children (stateDoc ?st))"
    by (simp add: docOf_def para_def atMostOneCommentMark_def)
  have doc: "withoutMarkerDoc (js ''c1'') ?d =
      docOf [para [Text (js ''ab'') [OtherMark (js ''bold'')],
                   Text (js ''cd'') [CommentMark (Some (js ''c2''))]],
             para [Text (js ''ef'') []]]"
    by (simp add: docOf_def para_def js_def)
  have store: "filter (\<lambda>c. comment_id c \<noteq> js ''c1'') ?cs
                 = [mkComment (js ''c2'') (Some (offsetPosition 3 5 (js ''cd'')))]"
    by (simp add: mkComment_def js_def)
  from delete_comment [OF wf excl, of "js ''c1''"]
  have "stateDoc (handleDeleteComment (js ''c1'') ?st) = withoutMarkerDoc (js ''c1'') ?d"
    and "stateComments (handleDeleteComment (js ''c1'') ?st)
           = filter (\<lambda>c. comment_id c \<noteq> js ''c1'') ?cs"
    by simp_all
  then show ?thesis
    unfolding doc store by (cases "handleDeleteComment (js ''c1'') ?st") simp
qed

text \<open>
  C4, at the failing input. Deleting a comment should remove every marker bearing its id
  from the document. A comment added over \<open>ab<br>cd\<close> puts its marker on the two text
  leaves and on the hard break between them; the removal visits text nodes only
  (\<open>if (!node.isText) return\<close>), so after the deletion the hard break still carries the
  marker of the deleted comment, while the comment is gone from the store.
\<close>

theorem delete_comment_leaves_marker_on_hard_break:
  "stateDoc (handleAddComment (js ''c1'') 0 (1, 6)
       \<lparr>stateDoc = docOf [para [Text (js ''ab'') [], hardBreak [], Text (js ''cd'') []]],
        stateComments = []\<rparr>)
     = docOf [para [Text (js ''ab'') [CommentMark (Some (js ''c1''))],
                    hardBreak [CommentMark (Some (js ''c1''))],
                    Text (js ''cd'') [CommentMark (Some (js ''c1''))]]] \<and>
   stateDoc (handleDeleteComment (js ''c1'')
       \<lparr>stateDoc = docOf [para [Text (js ''ab'') [CommentMark (Some (js ''c1''))],
                                 hardBreak [CommentMark (Some (js ''c1''))],
                                 Text (js ''cd'') [CommentMark (Some (js ''c1''))]]],
        stateComments = [mkComment (js ''c1'') (Some (offsetPosition 1 6 (js ''abcd'')))]\<rparr>)
     = docOf [para [Text (js ''ab'') [], hardBreak [CommentMark (Some (js ''c1''))],
                    Text (js ''cd'') []]] \<and>
   stateComments (handleDeleteComment (js ''c1'')
       \<lparr>stateDoc = docOf [para [Text (js ''ab'') [CommentMark (Some (js ''c1''))],
                                 hardBreak [CommentMark (Some (js ''c1''))],
                                 Text (js ''cd'') [CommentMark (Some (js ''c1''))]]],
        stateComments = [mkComment (js ''c1'') (Some (offsetPosition 1 6 (js ''abcd'')))]\<rparr>)
     = []"
  by (simp add: handleAddComment_def handleDeleteComment_def removeCommentMarkFromDocument_def
        applyCommentMarkToSelection_def setCommentMark_def descendants_def docOf_def para_def
        hardBreak_def js_def textPiece_def sliceStr_def addToSet_def removeCommentMarks_def
        textBetween_def Let_def mkComment_def)

text \<open>
  The removal of all comment marks visits every node and does clear the hard break.
\<close>

lemma removeAll_clears_hard_break:
  "removeAllCommentMarksFromDocument
       (docOf [para [Text (js ''ab'') [CommentMark (Some (js ''c1''))],
                     hardBreak [CommentMark (Some (js ''c1''))],
                     Text (js ''cd'') [CommentMark (Some (js ''c1''))]]])
     = (True, docOf [para [Text (js ''ab'') [], hardBreak [], Text (js ''cd'') []]])"
  by (simp add: removeAllCommentMarksFromDocument_def descendants_def docOf_def para_def
        hardBreak_def js_def textPiece_def sliceStr_def removeCommentMarks_def)

section \<open>Marking keeps the text\<close>

lemma sliceStr_append:
  "sliceStr i j (u @ v) = sliceStr i j u @ sliceStr (i - length u) (j - length u) v"
  by (cases "length u \<le> j") (simp_all add: sliceStr_def min_def)

lemma sliceStr_parts:
  "x \<le> y \<Longrightarrow> take x s @ sliceStr x y s @ drop y s = s"
proof -
  assume xy: "x \<le> y"
  have "sliceStr x y s = drop x (take y s)" by (simp add: sliceStr_def)
  moreover have "take x s = take x (take y s)" using xy by (simp add: min_def)
  ultimately have "take x s @ sliceStr x y s = take y s"
    by (metis append_take_drop_id)
  then show ?thesis by (metis append.assoc append_take_drop_id)
qed

lemma sizes_textPiece [simp]: "sizes (textPiece s ms) = length s"
  by (simp add: textPiece_def)

lemma length_pieces:
  "x \<le> y \<Longrightarrow> length (take x s) + length (sliceStr x y s) + length (drop y s) = length s"
  by (simp add: sliceStr_def min_def)

lemma sizes_pieces:
  "x \<le> y \<Longrightarrow>
   sizes (textPiece (take x s) m1 @ textPiece (sliceStr x y s) m2 @ textPiece (drop y s) m3) = length s"
  using length_pieces [of x y s] by (simp only: sizes_simps sizes_textPiece add.assoc)

lemma sizes_markRange [simp]:
  "a \<le> b \<Longrightarrow> sizes (markRange g chk a b ok pos ns) = sizes ns"
proof (induction g chk a b ok pos ns rule: markRange.induct)
  case (2 g chk a b ok pos s ms ns)
  have xy: "a - pos \<le> b - pos" using "2.prems" by simp
  have rest: "sizes (markRange g chk a b ok (pos + length s) ns) = sizes ns"
    using 2 by simp
  show ?case
  proof (cases "ok \<and> a < pos + length s \<and> pos < b")
    case True
    then have "markRange g chk a b ok pos (Text s ms # ns)
        = (textPiece (take (a - pos) s) ms @ textPiece (sliceStr (a - pos) (b - pos) s) (g ms)
             @ textPiece (drop (b - pos) s) ms) @ markRange g chk a b ok (pos + length s) ns"
      by simp
    then have "sizes (markRange g chk a b ok pos (Text s ms # ns))
        = sizes (textPiece (take (a - pos) s) ms @ textPiece (sliceStr (a - pos) (b - pos) s) (g ms)
             @ textPiece (drop (b - pos) s) ms) + sizes (markRange g chk a b ok (pos + length s) ns)"
      by (simp only: sizes_simps(3))
    then show ?thesis
      unfolding sizes_pieces [OF xy] rest by simp
  next
    case False
    then have "markRange g chk a b ok pos (Text s ms # ns)
        = Text s ms # markRange g chk a b ok (pos + length s) ns"
      by auto
    then show ?thesis by (simp add: rest)
  qed
next
  case (4 g chk a b ok pos ty lv tb al cs ns)
  then show ?case by (simp add: sizes_def)
qed simp_all

lemma nodeSize_markRange:
  "a \<le> b \<Longrightarrow> nodeSize (Elem ty lv tb al (markRange g chk a b ok pos cs)) = nodeSize (Elem ty lv tb al cs)"
  using sizes_markRange [of a b g chk ok pos cs] by (simp add: sizes_def)

lemma nodesBetweenFrom_past: "t \<le> pos \<Longrightarrow> nodesBetweenFrom f t pos ns = []"
  by (cases "(f, t, pos, ns)" rule: nodesBetweenFrom.cases) auto

lemma nodesBetweenFrom_append:
  "nodesBetweenFrom f t pos (xs @ ys)
     = nodesBetweenFrom f t pos xs @ nodesBetweenFrom f t (pos + sizes xs) ys"
proof (induction f t pos xs rule: nodesBetweenFrom.induct)
  case (1 f t pos)
  show ?case by simp
next
  case (2 f t pos s ms ns)
  show ?case
  proof (cases "t \<le> pos")
    case True
    then have "nodesBetweenFrom f t (pos + sizes (Text s ms # ns)) ys = []"
      by (simp add: nodesBetweenFrom_past)
    with True show ?thesis by simp
  next
    case False
    with 2 show ?thesis by (simp add: add.assoc)
  qed
next
  case (3 f t pos ty inl ms ns)
  show ?case
  proof (cases "t \<le> pos")
    case True
    then have "nodesBetweenFrom f t (pos + sizes (Leaf ty inl ms # ns)) ys = []"
      by (simp add: nodesBetweenFrom_past)
    with True show ?thesis by simp
  next
    case False
    with 3 show ?thesis by (simp add: add.assoc)
  qed
next
  case (4 f t pos ty lv tb al cs ns)
  show ?case
  proof (cases "t \<le> pos")
    case True
    then have "nodesBetweenFrom f t (pos + sizes (Elem ty lv tb al cs # ns)) ys = []"
      by (simp add: nodesBetweenFrom_past)
    with True show ?thesis by (simp del: nodeSize.simps(3))
  next
    case False
    with 4 show ?thesis by (simp add: add.assoc del: nodeSize.simps(3))
  qed
qed

lemma visit_append:
  "fold (textBetweenVisit f t sep) (nodesBetweenFrom f t pos (xs @ ys)) st
     = fold (textBetweenVisit f t sep) (nodesBetweenFrom f t (pos + sizes xs) ys)
         (fold (textBetweenVisit f t sep) (nodesBetweenFrom f t pos xs) st)"
  by (simp only: nodesBetweenFrom_append fold_append comp_def)

lemma visit_textPiece:
  "fold (textBetweenVisit f t sep) (nodesBetweenFrom f t pos (textPiece s ms)) (acc, fl)
     = (acc @ sliceStr (f - pos) (t - pos) s, fl)"
  by (auto simp: textPiece_def sliceStr_def max_def)

lemma visit_pieces:
  assumes "x \<le> y"
  shows "fold (textBetweenVisit f t sep)
           (nodesBetweenFrom f t pos (textPiece (take x s) m1 @ textPiece (sliceStr x y s) m2
               @ textPiece (drop y s) m3)) (acc, fl)
         = (acc @ sliceStr (f - pos) (t - pos) s, fl)"
proof -
  let ?u = "take x s" and ?v = "sliceStr x y s" and ?w = "drop y s"
  have s: "s = ?u @ ?v @ ?w" using sliceStr_parts [OF assms, of s] by simp
  have "sliceStr (f - pos) (t - pos) (?u @ ?v @ ?w)
          = sliceStr (f - pos) (t - pos) ?u
            @ sliceStr (f - (pos + length ?u)) (t - (pos + length ?u)) ?v
            @ sliceStr (f - (pos + length ?u + length ?v)) (t - (pos + length ?u + length ?v)) ?w"
    by (simp only: sliceStr_append diff_diff_left)
  then have sl: "sliceStr (f - pos) (t - pos) s
          = sliceStr (f - pos) (t - pos) ?u
            @ sliceStr (f - (pos + length ?u)) (t - (pos + length ?u)) ?v
            @ sliceStr (f - (pos + length ?u + length ?v)) (t - (pos + length ?u + length ?v)) ?w"
    using s by simp
  have 1: "fold (textBetweenVisit f t sep)
             (nodesBetweenFrom f t pos (textPiece ?u m1 @ (textPiece ?v m2 @ textPiece ?w m3))) (acc, fl)
           = fold (textBetweenVisit f t sep)
               (nodesBetweenFrom f t (pos + length ?u) (textPiece ?v m2 @ textPiece ?w m3))
               (acc @ sliceStr (f - pos) (t - pos) ?u, fl)"
    unfolding visit_append [of f t sep pos "textPiece ?u m1"] visit_textPiece sizes_textPiece ..
  have 2: "fold (textBetweenVisit f t sep)
               (nodesBetweenFrom f t (pos + length ?u) (textPiece ?v m2 @ textPiece ?w m3))
               (acc @ sliceStr (f - pos) (t - pos) ?u, fl)
           = (acc @ sliceStr (f - pos) (t - pos) ?u
                @ sliceStr (f - (pos + length ?u)) (t - (pos + length ?u)) ?v
                @ sliceStr (f - (pos + length ?u + length ?v)) (t - (pos + length ?u + length ?v)) ?w, fl)"
    unfolding visit_append [of f t sep "pos + length ?u" "textPiece ?v m2"] visit_textPiece
      sizes_textPiece
    by simp
  show ?thesis
    unfolding sl using 1 2 by simp
qed

lemma textBetween_markRange:
  assumes "a \<le> b"
  shows "fold (textBetweenVisit f t sep) (nodesBetweenFrom f t pos (markRange g chk a b ok pos ns)) st
           = fold (textBetweenVisit f t sep) (nodesBetweenFrom f t pos ns) st"
  using assms
proof (induction g chk a b ok pos ns arbitrary: st rule: markRange.induct)
  case (1 g chk a b ok pos)
  show ?case by simp
next
  case (2 g chk a b ok pos s ms ns)
  obtain acc fl where st: "st = (acc, fl)" by (cases st)
  let ?pieces = "textPiece (take (a - pos) s) ms @ textPiece (sliceStr (a - pos) (b - pos) s) (g ms)
                   @ textPiece (drop (b - pos) s) ms"
  have xy: "a - pos \<le> b - pos" using "2.prems" by simp
  have whole: "fold (textBetweenVisit f t sep) (nodesBetweenFrom f t pos [Text s ms]) (acc, fl)
                 = (acc @ sliceStr (f - pos) (t - pos) s, fl)"
    using visit_textPiece [of f t sep pos s ms acc fl]
    by (cases "s = []") (auto simp: textPiece_def sliceStr_def max_def)
  have pieces: "fold (textBetweenVisit f t sep) (nodesBetweenFrom f t pos ?pieces) (acc, fl)
                 = (acc @ sliceStr (f - pos) (t - pos) s, fl)"
    by (rule visit_pieces [OF xy])
  have sz: "sizes ?pieces = length s"
    by (rule sizes_pieces [OF xy])
  have rest: "\<And>st'. fold (textBetweenVisit f t sep)
                 (nodesBetweenFrom f t (pos + length s) (markRange g chk a b ok (pos + length s) ns)) st'
               = fold (textBetweenVisit f t sep) (nodesBetweenFrom f t (pos + length s) ns) st'"
    using "2.IH" "2.prems" by simp
  have orig: "nodesBetweenFrom f t pos (Text s ms # ns)
                = nodesBetweenFrom f t pos [Text s ms] @ nodesBetweenFrom f t (pos + length s) ns"
    using nodesBetweenFrom_append [of f t pos "[Text s ms]" ns] by simp
  have target: "fold (textBetweenVisit f t sep) (nodesBetweenFrom f t pos (Text s ms # ns)) st
      = fold (textBetweenVisit f t sep) (nodesBetweenFrom f t (pos + length s) ns)
          (acc @ sliceStr (f - pos) (t - pos) s, fl)"
    unfolding orig st by (simp only: fold_append comp_def whole)
  show ?case
  proof (cases "ok \<and> a < pos + length s \<and> pos < b")
    case True
    then have lhs: "markRange g chk a b ok pos (Text s ms # ns)
        = ?pieces @ markRange g chk a b ok (pos + length s) ns"
      by simp
    have "fold (textBetweenVisit f t sep)
            (nodesBetweenFrom f t pos (markRange g chk a b ok pos (Text s ms # ns))) st
        = fold (textBetweenVisit f t sep) (nodesBetweenFrom f t (pos + length s) ns)
            (acc @ sliceStr (f - pos) (t - pos) s, fl)"
      unfolding lhs st
      unfolding visit_append [of f t sep pos ?pieces] pieces sz
      by (rule rest)
    with target show ?thesis by simp
  next
    case False
    then have lhs: "markRange g chk a b ok pos (Text s ms # ns)
        = [Text s ms] @ markRange g chk a b ok (pos + length s) ns"
      by auto
    have "fold (textBetweenVisit f t sep)
            (nodesBetweenFrom f t pos (markRange g chk a b ok pos (Text s ms # ns))) st
        = fold (textBetweenVisit f t sep) (nodesBetweenFrom f t (pos + length s) ns)
            (acc @ sliceStr (f - pos) (t - pos) s, fl)"
      unfolding lhs st
      unfolding visit_append [of f t sep pos "[Text s ms]"] whole
      using rest by simp
    with target show ?thesis by simp
  qed
next
  case (3 g chk a b ok pos ty inl ms ns)
  obtain acc fl where st: "st = (acc, fl)" by (cases st)
  from 3 show ?case by (simp add: st)
next
  case (4 g chk a b ok pos ty lv tb al cs ns)
  let ?e = "Elem ty lv tb al cs"
  have size: "nodeSize (Elem ty lv tb al (markRange g chk a b (chk \<longrightarrow> al) (pos + 1) cs)) = nodeSize ?e"
    by (rule nodeSize_markRange [OF "4.prems"])
  obtain acc fl where st: "st = (acc, fl)" by (cases st)
  show ?case
    using "4.IH"(1) [OF "4.prems"] "4.IH"(2) [OF "4.prems"] size
    by (simp add: st del: nodeSize.simps(3))
qed

section \<open>The marker runs of a marked selection\<close>

lemma nodesFrom_append:
  "nodesFrom pos (xs @ ys) = nodesFrom pos xs @ nodesFrom (pos + sizes xs) ys"
  by (induction pos xs rule: nodesFrom.induct) (simp_all add: add.assoc del: nodeSize.simps(3))

lemma runs_textPiece:
  "markerRunsOf cid (nodesFrom pos (textPiece s ms))
     = (if s \<noteq> [] \<and> CommentMark (Some cid) \<in> set ms then [(pos, pos + length s)] else [])"
  by (simp add: textPiece_def)

lemma addToSet_member:
  "\<not> list_ex excludesCommentMark ms \<Longrightarrow> m \<in> set (addToSet m ms)"
  by (simp add: addToSet_def)

lemma addToSet_blocked:
  "list_ex excludesCommentMark ms \<Longrightarrow> addToSet (CommentMark c) ms = ms"
  by (simp add: addToSet_def)

lemma runs_pieces:
  assumes fresh: "CommentMark (Some cid) \<notin> set mt"
    and ab: "a < b" and lo: "a < pos + length t" and hi: "pos < b" and ne: "t \<noteq> []"
    and free: "\<not> list_ex excludesCommentMark mt"
  shows "markerRunsOf cid (nodesFrom pos
            (textPiece (take (a - pos) t) mt
               @ textPiece (sliceStr (a - pos) (b - pos) t) (addToSet (CommentMark (Some cid)) mt)
               @ textPiece (drop (b - pos) t) mt))
         = [(max a pos, min b (pos + length t))]"
proof -
  let ?x = "a - pos" and ?y = "b - pos"
  have "0 < length t" using ne by simp
  then have x: "?x < length t" using lo by arith
  have xy: "?x < ?y" using ab hi by arith
  have mid: "sliceStr ?x ?y t \<noteq> []" using x xy by (simp add: sliceStr_def)
  have len_mid: "length (sliceStr ?x ?y t) = min ?y (length t) - ?x"
    by (simp add: sliceStr_def min.commute)
  have start: "pos + min (length t) ?x = max a pos" using x by arith
  have stop: "max a pos + (min ?y (length t) - ?x) = min b (pos + length t)"
    using x xy hi by arith
  show ?thesis
    unfolding nodesFrom_append markerRunsOf_append runs_textPiece sizes_textPiece
    using fresh mid addToSet_member [OF free, of "CommentMark (Some cid)"]
    by (simp add: start len_mid stop)
qed

lemma markRange_Text_hit:
  "ok \<and> a < pos + length s \<and> pos < b \<Longrightarrow>
   markRange g chk a b ok pos (Text s ms # ns)
     = (textPiece (take (a - pos) s) ms @ textPiece (sliceStr (a - pos) (b - pos) s) (g ms)
          @ textPiece (drop (b - pos) s) ms) @ markRange g chk a b ok (pos + length s) ns"
  by simp

lemma markRange_Text_miss:
  "\<not> (ok \<and> a < pos + length s \<and> pos < b) \<Longrightarrow>
   markRange g chk a b ok pos (Text s ms # ns) = [Text s ms] @ markRange g chk a b ok (pos + length s) ns"
  by auto

lemma runs_pieces_blocked:
  assumes fresh: "CommentMark (Some cid) \<notin> set mt"
  shows "markerRunsOf cid (nodesFrom pos
            (textPiece u mt @ textPiece v mt @ textPiece w mt)) = []"
  unfolding nodesFrom_append markerRunsOf_append runs_textPiece
  using fresh by simp

lemma runs_marked_Text:
  assumes fresh: "CommentMark (Some cid) \<notin> set mt" and ab: "a < b"
  shows "markerRunsOf cid (nodesFrom pos
            (markRange (addToSet (CommentMark (Some cid))) True a b ok pos (Text t mt # ns)))
         = (if ok \<and> a < pos + length t \<and> pos < b \<and> t \<noteq> [] \<and> \<not> list_ex excludesCommentMark mt
            then [(max a pos, min b (pos + length t))] else [])
             @ markerRunsOf cid (nodesFrom (pos + length t)
                 (markRange (addToSet (CommentMark (Some cid))) True a b ok (pos + length t) ns))"
proof (cases "ok \<and> a < pos + length t \<and> pos < b")
  case True
  have xy: "a - pos \<le> b - pos" using ab by simp
  show ?thesis
  proof (cases "list_ex excludesCommentMark mt")
    case blocked: True
    show ?thesis
      unfolding markRange_Text_hit [OF True] nodesFrom_append [of pos "_ @ _ @ _"] markerRunsOf_append
        sizes_pieces [OF xy] addToSet_blocked [OF blocked] runs_pieces_blocked [OF fresh]
      using blocked by simp
  next
    case free: False
    show ?thesis
    proof (cases "t = []")
      case False
      show ?thesis
        unfolding markRange_Text_hit [OF True] nodesFrom_append [of pos "_ @ _ @ _"] markerRunsOf_append
          sizes_pieces [OF xy]
        using True False free runs_pieces [OF fresh ab _ _ False free, of pos] by simp
    next
      case empty: True
      show ?thesis
        unfolding markRange_Text_hit [OF True] nodesFrom_append [of pos "_ @ _ @ _"] markerRunsOf_append
          sizes_pieces [OF xy]
        using empty by (simp add: textPiece_def sliceStr_def)
    qed
  qed
next
  case False
  show ?thesis
    unfolding markRange_Text_miss [OF False]
    using False fresh by auto
qed

lemma runs_marked_within:
  assumes "markerRunsOf cid (nodesFrom pos ns) = []" and "a < b"
  shows "\<forall>(s, e) \<in> set (markerRunsOf cid (nodesFrom pos
            (markRange (addToSet (CommentMark (Some cid))) True a b ok pos ns))). a \<le> s \<and> e \<le> b"
  using assms
proof (induction pos ns arbitrary: ok rule: nodesFrom.induct)
  case (1 pos)
  show ?case by simp
next
  case (2 pos t mt ns)
  from "2.prems"(1) have fresh: "CommentMark (Some cid) \<notin> set mt"
    and rest: "markerRunsOf cid (nodesFrom (pos + length t) ns) = []"
    by (simp_all split: if_splits)
  show ?case
    unfolding runs_marked_Text [OF fresh "2.prems"(2)]
    using "2.IH" [OF rest "2.prems"(2), of ok] by auto
next
  case (3 pos ty inl mt ns)
  then show ?case by simp
next
  case (4 pos ty lv tb al cs ns)
  from "4.prems"(1) have kids: "markerRunsOf cid (nodesFrom (pos + 1) cs) = []"
    and rest: "markerRunsOf cid (nodesFrom (pos + nodeSize (Elem ty lv tb al cs)) ns) = []"
    by (simp_all del: nodeSize.simps(3))
  have ab: "a \<le> b" using "4.prems"(2) by simp
  show ?case
    using "4.IH"(1) [OF kids "4.prems"(2), of al] "4.IH"(2) [OF rest "4.prems"(2), of ok]
      nodeSize_markRange [OF ab, of ty lv tb al "addToSet (CommentMark (Some cid))" True al "pos + 1" cs]
    by (auto simp del: nodeSize.simps(3))
qed

lemma runs_marked_first:
  assumes "markerRunsOf cid (nodesFrom pos ns) = []" and "a < b" and "textCharAt ok pos ns a"
  shows "\<exists>e. (a, e) \<in> set (markerRunsOf cid (nodesFrom pos
            (markRange (addToSet (CommentMark (Some cid))) True a b ok pos ns)))"
  using assms
proof (induction pos ns arbitrary: ok rule: nodesFrom.induct)
  case (1 pos)
  then show ?case by simp
next
  case (2 pos t mt ns)
  from "2.prems"(1) have fresh: "CommentMark (Some cid) \<notin> set mt"
    and rest: "markerRunsOf cid (nodesFrom (pos + length t) ns) = []"
    by (simp_all split: if_splits)
  show ?case
  proof (cases "ok \<and> \<not> list_ex excludesCommentMark mt \<and> pos \<le> a \<and> a < pos + length t")
    case True
    then have "t \<noteq> []" by auto
    with True show ?thesis
      unfolding runs_marked_Text [OF fresh "2.prems"(2)]
      using "2.prems"(2) by (auto simp: max_def)
  next
    case False
    with "2.prems"(3) have "textCharAt ok (pos + length t) ns a" by auto
    from "2.IH" [OF rest "2.prems"(2) this] show ?thesis
      unfolding runs_marked_Text [OF fresh "2.prems"(2)] by auto
  qed
next
  case (3 pos ty inl mt ns)
  then show ?case by simp
next
  case (4 pos ty lv tb al cs ns)
  from "4.prems"(1) have kids: "markerRunsOf cid (nodesFrom (pos + 1) cs) = []"
    and rest: "markerRunsOf cid (nodesFrom (pos + nodeSize (Elem ty lv tb al cs)) ns) = []"
    by (simp_all del: nodeSize.simps(3))
  have ab: "a \<le> b" using "4.prems"(2) by simp
  note size = nodeSize_markRange [OF ab, of ty lv tb al "addToSet (CommentMark (Some cid))" True al "pos + 1" cs]
  from "4.prems"(3) consider "textCharAt al (pos + 1) cs a"
    | "textCharAt ok (pos + nodeSize (Elem ty lv tb al cs)) ns a" by auto
  then show ?case
  proof cases
    case 1
    from "4.IH"(1) [OF kids "4.prems"(2) 1] show ?thesis
      using size by (auto simp del: nodeSize.simps(3))
  next
    case 2
    from "4.IH"(2) [OF rest "4.prems"(2) 2] show ?thesis
      using size by (auto simp del: nodeSize.simps(3))
  qed
qed

lemma runs_marked_last:
  assumes "markerRunsOf cid (nodesFrom pos ns) = []" and "a < b" and "textCharAt ok pos ns (b - 1)"
  shows "\<exists>s. (s, b) \<in> set (markerRunsOf cid (nodesFrom pos
            (markRange (addToSet (CommentMark (Some cid))) True a b ok pos ns)))"
  using assms
proof (induction pos ns arbitrary: ok rule: nodesFrom.induct)
  case (1 pos)
  then show ?case by simp
next
  case (2 pos t mt ns)
  from "2.prems"(1) have fresh: "CommentMark (Some cid) \<notin> set mt"
    and rest: "markerRunsOf cid (nodesFrom (pos + length t) ns) = []"
    by (simp_all split: if_splits)
  show ?case
  proof (cases "ok \<and> \<not> list_ex excludesCommentMark mt \<and> pos \<le> b - 1 \<and> b - 1 < pos + length t")
    case True
    then have "ok \<and> a < pos + length t \<and> pos < b" and "min b (pos + length t) = b"
      and "t \<noteq> []" and "\<not> list_ex excludesCommentMark mt"
      using "2.prems"(2) by auto
    then show ?thesis
      unfolding runs_marked_Text [OF fresh "2.prems"(2)] by auto
  next
    case False
    with "2.prems"(3) have "textCharAt ok (pos + length t) ns (b - 1)" by auto
    from "2.IH" [OF rest "2.prems"(2) this] show ?thesis
      unfolding runs_marked_Text [OF fresh "2.prems"(2)] by auto
  qed
next
  case (3 pos ty inl mt ns)
  then show ?case by simp
next
  case (4 pos ty lv tb al cs ns)
  from "4.prems"(1) have kids: "markerRunsOf cid (nodesFrom (pos + 1) cs) = []"
    and rest: "markerRunsOf cid (nodesFrom (pos + nodeSize (Elem ty lv tb al cs)) ns) = []"
    by (simp_all del: nodeSize.simps(3))
  have ab: "a \<le> b" using "4.prems"(2) by simp
  note size = nodeSize_markRange [OF ab, of ty lv tb al "addToSet (CommentMark (Some cid))" True al "pos + 1" cs]
  from "4.prems"(3) consider "textCharAt al (pos + 1) cs (b - 1)"
    | "textCharAt ok (pos + nodeSize (Elem ty lv tb al cs)) ns (b - 1)" by auto
  then show ?case
  proof cases
    case 1
    from "4.IH"(1) [OF kids "4.prems"(2) 1] show ?thesis
      using size by (auto simp del: nodeSize.simps(3))
  next
    case 2
    from "4.IH"(2) [OF rest "4.prems"(2) 2] show ?thesis
      using size by (auto simp del: nodeSize.simps(3))
  qed
qed

lemma coalesce_exact:
  assumes within: "\<forall>(s, e) \<in> set rs. a \<le> s \<and> e \<le> b"
    and first: "(a, e0) \<in> set rs" and last: "(s0, b) \<in> set rs"
  shows "coalesce rs = Some (a, b)"
proof -
  have ne: "rs \<noteq> []" using first by auto
  have "Min (set (map fst rs)) = a"
  proof (rule Min_eqI)
    show "finite (set (map fst rs))" by simp
    show "\<And>y. y \<in> set (map fst rs) \<Longrightarrow> a \<le> y" using within by auto
    show "a \<in> set (map fst rs)" using first by force
  qed
  moreover have "Max (set (map snd rs)) = b"
  proof (rule Max_eqI)
    show "finite (set (map snd rs))" by simp
    show "\<And>y. y \<in> set (map snd rs) \<Longrightarrow> y \<le> b" using within by auto
    show "b \<in> set (map snd rs)" using last by force
  qed
  ultimately show ?thesis using ne by (simp add: coalesce_def)
qed

lemma marks_after_setCommentMark:
  assumes ab: "a < b" and first: "markableTextAt d a" and last: "markableTextAt d (b - 1)"
    and fresh: "\<not> carriesMarker d cid" and cid: "cid \<noteq> []"
  shows "currentMarksInDoc (setCommentMark d a b cid) cid = Some (a, b)"
proof (cases d)
  case (Elem ty lv tb al cs)
  let ?R = "markerRunsOf cid (nodesFrom 0
              (markRange (addToSet (CommentMark (Some cid))) True a b al 0 cs))"
  have fr: "markerRunsOf cid (nodesFrom 0 cs) = []"
    using fresh Elem by (simp add: carriesMarker_def markerRuns_def descendants_def)
  have w: "\<forall>(s, e) \<in> set ?R. a \<le> s \<and> e \<le> b" by (rule runs_marked_within [OF fr ab])
  obtain e0 where f: "(a, e0) \<in> set ?R"
    using runs_marked_first [OF fr ab, of al] first Elem by auto
  obtain s0 where l: "(s0, b) \<in> set ?R"
    using runs_marked_last [OF fr ab, of al] last Elem by auto
  have "coalesce ?R = Some (a, b)" by (rule coalesce_exact [OF w f l])
  then show ?thesis
    using cid Elem
    by (simp add: currentMarksInDoc_coalesce markerRuns_def descendants_def setCommentMark_def)
next
  case (Text s ms)
  with first show ?thesis by simp
next
  case (Leaf ty inl ms)
  with first show ?thesis by simp
qed

lemma textBetween_setCommentMark:
  "a \<le> b \<Longrightarrow> textBetween (setCommentMark d a b cid) f t sep = textBetween d f t sep"
  by (cases d) (simp_all add: textBetween_def setCommentMark_def textBetween_markRange)

lemma coalesce_within:
  assumes "\<forall>(s, e) \<in> set rs. a \<le> s \<and> e \<le> b" and "coalesce rs = Some (f, t)"
  shows "a \<le> f \<and> t \<le> b"
proof -
  have ne: "rs \<noteq> []" using assms(2) by (auto simp: coalesce_def)
  then have f: "f = Min (set (map fst rs))" and t: "t = Max (set (map snd rs))"
    using assms(2) by (simp_all add: coalesce_def)
  have "Min (set (map fst rs)) \<in> set (map fst rs)" using ne by (intro Min_in) simp_all
  then have "a \<le> f" unfolding f using assms(1) by auto
  moreover have "Max (set (map snd rs)) \<in> set (map snd rs)" using ne by (intro Max_in) simp_all
  then have "t \<le> b" unfolding t using assms(1) by auto
  ultimately show ?thesis by simp
qed

lemma marks_within_selection:
  assumes ab: "a < b" and fresh: "\<not> carriesMarker d cid" and cid: "cid \<noteq> []"
    and found: "currentMarksInDoc (setCommentMark d a b cid) cid = Some (f, t)"
  shows "a \<le> f \<and> t \<le> b"
proof (cases d)
  case (Elem ty lv tb al cs)
  let ?R = "markerRunsOf cid (nodesFrom 0
              (markRange (addToSet (CommentMark (Some cid))) True a b al 0 cs))"
  have fr: "markerRunsOf cid (nodesFrom 0 cs) = []"
    using fresh Elem by (simp add: carriesMarker_def markerRuns_def descendants_def)
  have w: "\<forall>(s, e) \<in> set ?R. a \<le> s \<and> e \<le> b" by (rule runs_marked_within [OF fr ab])
  have "coalesce ?R = Some (f, t)"
    using found cid Elem
    by (simp add: currentMarksInDoc_coalesce markerRuns_def descendants_def setCommentMark_def)
  with w show ?thesis by (rule coalesce_within)
next
  case (Text s ms)
  with found show ?thesis
    by (simp add: setCommentMark_def currentMarksInDoc_def descendants_def)
next
  case (Leaf ty inl ms)
  with found show ?thesis
    by (simp add: setCommentMark_def currentMarksInDoc_def descendants_def)
qed

section \<open>Adding a comment and resolving it\<close>

lemma handleAddComment_sel:
  "a < b \<Longrightarrow>
   handleAddComment cid now (a, b) st =
     st\<lparr>stateDoc := setCommentMark (stateDoc st) a b cid,
        stateComments := stateComments st @
          [\<lparr>comment_id = cid, author = js ''user-current'',
            comment_text = js ''Comment to: '' @ [0x27]
                @ trim (take 30 (textBetween (stateDoc st) a b (js '' '')))
                @ (if 30 < length (textBetween (stateDoc st) a b (js '' '')) then js ''...'' else [])
                @ [0x27],
            createdAt = now, resolved = False, comment_type = Offset,
            position = Some \<lparr>textFragment = Some (textBetween (stateDoc st) a b (js '' '')),
                               pos_from = Some (int a), pos_to = Some (int b), path = None,
                               startOffset = None, endOffset = None\<rparr>,
            replies = None\<rparr>]\<rparr>"
  by (simp add: handleAddComment_def Let_def applyCommentMarkToSelection_def)

text \<open>
  C1, as amended. For every document, every selection \<open>[from, to)\<close> with \<open>from < to\<close> and
  every fresh non-empty comment id, adding the comment stores \<open>[from, to)\<close> with the
  document text between \<open>from\<close> and \<open>to\<close> as \<open>textFragment\<close> and attaches the marker. When
  the first and the last position of the selection are code units of text leaves that take
  the comment mark (the parent admits it and the leaf carries no mark that excludes it),
  the synchronizer's marker scan on the unchanged document finds exactly \<open>[from, to)\<close>, the
  text between the two positions is the stored fragment, and the synchronizer returns the
  new comment as it is, alone or at its place in the whole collection. For any selection
  the scan finds either a range \<open>[f, t)\<close> inside \<open>[from, to)\<close>, to which the synchronizer
  sets the stored range, with the text between \<open>f\<close> and \<open>t\<close> as fragment, or no range, and
  the synchronizer then orphans the comment. In every document the range the scan records
  for an id is the coalesced range of that marker's runs, from the least run start to the
  greatest run end, and nothing when there is no run.
\<close>

theorem offset_compute_resolve:
  assumes sel: "a < b"
    and fresh: "\<not> carriesMarker d cid" and cid: "cid \<noteq> []"
    and st': "st' = handleAddComment cid now (a, b) \<lparr>stateDoc = d, stateComments = cs\<rparr>"
  shows "position (last (stateComments st')) =
           Some \<lparr>textFragment = Some (textBetween d a b (js '' '')), pos_from = Some (int a),
                  pos_to = Some (int b), path = None, startOffset = None, endOffset = None\<rparr> \<and>
         (markableTextAt d a \<and> markableTextAt d (b - 1) \<longrightarrow>
            currentMarksInDoc (stateDoc st') cid = Some (a, b) \<and>
            textBetween (stateDoc st') a b (js '' '') = textBetween d a b (js '' '') \<and>
            syncCommentPositionsWithEditorState (stateDoc st') [last (stateComments st')]
              = ([last (stateComments st')], False) \<and>
            fst (syncCommentPositionsWithEditorState (stateDoc st') (stateComments st')) ! length cs
              = last (stateComments st')) \<and>
         (currentMarksInDoc (stateDoc st') cid = Some (f, t) \<longrightarrow>
            a \<le> f \<and> t \<le> b \<and>
            fst (syncCommentPositionsWithEditorState (stateDoc st') [last (stateComments st')])
              = [(last (stateComments st'))\<lparr>position :=
                   Some \<lparr>textFragment = Some (textBetween d f t (js '' '')),
                          pos_from = Some (int f), pos_to = Some (int t),
                          path = None, startOffset = None, endOffset = None\<rparr>\<rparr>]) \<and>
         (currentMarksInDoc (stateDoc st') cid = None \<longrightarrow>
            syncCommentPositionsWithEditorState (stateDoc st') [last (stateComments st')]
              = ([(last (stateComments st'))\<lparr>position :=
                    Some \<lparr>textFragment = Some (orphanedFragment (Some (textBetween d a b (js '' '')))),
                           pos_from = None, pos_to = None,
                           path = None, startOffset = None, endOffset = None\<rparr>\<rparr>], True)) \<and>
         (cid2 \<noteq> [] \<longrightarrow> currentMarksInDoc d2 cid2 = coalesce (markerRuns d2 cid2))"
proof -
  let ?frag = "textBetween d a b (js '' '')"
  let ?c = "last (stateComments st')"
  let ?d' = "stateDoc st'"
  have doc: "?d' = setCommentMark d a b cid"
    and coms: "stateComments st' = cs @ [?c]"
    and id: "comment_id ?c = cid"
    and pos: "position ?c = Some \<lparr>textFragment = Some ?frag, pos_from = Some (int a),
                  pos_to = Some (int b), path = None, startOffset = None, endOffset = None\<rparr>"
    unfolding st' handleAddComment_sel [OF sel] by simp_all
  have txt_same: "\<And>x y. textBetween ?d' x y (js '' '') = textBetween d x y (js '' '')"
    unfolding doc using sel by (simp add: textBetween_setCommentMark)
  have round: "markableTextAt d a \<and> markableTextAt d (b - 1) \<longrightarrow>
            currentMarksInDoc ?d' cid = Some (a, b) \<and>
            textBetween ?d' a b (js '' '') = ?frag \<and>
            syncCommentPositionsWithEditorState ?d' [?c] = ([?c], False) \<and>
            fst (syncCommentPositionsWithEditorState ?d' (stateComments st')) ! length cs = ?c"
  proof
    assume ends: "markableTextAt d a \<and> markableTextAt d (b - 1)"
    have marks: "currentMarksInDoc ?d' cid = Some (a, b)"
      unfolding doc using ends by (intro marks_after_setCommentMark [OF sel _ _ fresh cid]) simp_all
    have one: "syncComment ?d' (currentMarksInDoc ?d') ?c = (?c, False)"
      using id cid pos marks txt_same by (simp add: syncComment_def isAlreadyOrphaned_def)
    have alone: "syncCommentPositionsWithEditorState ?d' [?c] = ([?c], False)"
      using one by (simp add: syncCommentPositionsWithEditorState_def)
    have "length cs < length (stateComments st')"
      using coms by (metis length_append_singleton lessI)
    then have "fst (syncCommentPositionsWithEditorState ?d' (stateComments st')) ! length cs
                 = fst (syncComment ?d' (currentMarksInDoc ?d') (stateComments st' ! length cs))"
      by (rule sync_nth)
    moreover have "stateComments st' ! length cs = ?c"
      using coms by (metis nth_append_length)
    ultimately have whole: "fst (syncCommentPositionsWithEditorState ?d' (stateComments st'))
                              ! length cs = ?c"
      using one by simp
    show "currentMarksInDoc ?d' cid = Some (a, b) \<and>
            textBetween ?d' a b (js '' '') = ?frag \<and>
            syncCommentPositionsWithEditorState ?d' [?c] = ([?c], False) \<and>
            fst (syncCommentPositionsWithEditorState ?d' (stateComments st')) ! length cs = ?c"
      using marks txt_same alone whole by simp
  qed
  have found: "currentMarksInDoc ?d' cid = Some (f, t) \<longrightarrow>
            a \<le> f \<and> t \<le> b \<and>
            fst (syncCommentPositionsWithEditorState ?d' [?c])
              = [?c\<lparr>position :=
                   Some \<lparr>textFragment = Some (textBetween d f t (js '' '')),
                          pos_from = Some (int f), pos_to = Some (int t),
                          path = None, startOffset = None, endOffset = None\<rparr>\<rparr>]"
  proof
    assume m: "currentMarksInDoc ?d' cid = Some (f, t)"
    have within: "a \<le> f \<and> t \<le> b"
      using m unfolding doc by (rule marks_within_selection [OF sel fresh cid])
    let ?new = "\<lparr>textFragment = Some (textBetween d f t (js '' '')),
                          pos_from = Some (int f), pos_to = Some (int t),
                          path = None, startOffset = None, endOffset = None\<rparr>"
    have one: "fst (syncComment ?d' (currentMarksInDoc ?d') ?c) = ?c\<lparr>position := Some ?new\<rparr>"
    proof (cases "f = a \<and> t = b")
      case True
      then have same: "?c\<lparr>position := Some ?new\<rparr> = ?c" using pos by simp
      have "syncComment ?d' (currentMarksInDoc ?d') ?c = (?c, False)"
        using id cid pos m txt_same True by (simp add: syncComment_def isAlreadyOrphaned_def)
      with same show ?thesis by simp
    next
      case False
      then show ?thesis
        using id cid pos m txt_same by (auto simp add: syncComment_def isAlreadyOrphaned_def)
    qed
    have "fst (syncCommentPositionsWithEditorState ?d' [?c]) = [?c\<lparr>position := Some ?new\<rparr>]"
      using one by (simp add: syncCommentPositionsWithEditorState_def)
    with within show "a \<le> f \<and> t \<le> b \<and>
            fst (syncCommentPositionsWithEditorState ?d' [?c]) = [?c\<lparr>position := Some ?new\<rparr>]"
      by simp
  qed
  have lost: "currentMarksInDoc ?d' cid = None \<longrightarrow>
            syncCommentPositionsWithEditorState ?d' [?c]
              = ([?c\<lparr>position :=
                    Some \<lparr>textFragment = Some (orphanedFragment (Some ?frag)),
                           pos_from = None, pos_to = None,
                           path = None, startOffset = None, endOffset = None\<rparr>\<rparr>], True)"
    using id cid pos
    by (simp add: syncCommentPositionsWithEditorState_def syncComment_def isAlreadyOrphaned_def)
  have scan: "cid2 \<noteq> [] \<longrightarrow> currentMarksInDoc d2 cid2 = coalesce (markerRuns d2 cid2)"
    by (simp add: currentMarksInDoc_coalesce)
  from pos round found lost scan show ?thesis by blast
qed

theorem offset_compute_resolve_witness:
  "currentMarksInDoc (stateDoc (handleAddComment (js ''c1'') 7 (2, 6)
       \<lparr>stateDoc = docOf [para [Text (js ''ab'') []], para [Text (js ''cd'') []]],
        stateComments = []\<rparr>)) (js ''c1'') = Some (2, 6) \<and>
   stateDoc (handleAddComment (js ''c1'') 7 (2, 6)
       \<lparr>stateDoc = docOf [para [Text (js ''ab'') []], para [Text (js ''cd'') []]],
        stateComments = []\<rparr>)
     = docOf [para [Text (js ''a'') [], Text (js ''b'') [CommentMark (Some (js ''c1''))]],
              para [Text (js ''c'') [CommentMark (Some (js ''c1''))], Text (js ''d'') []]] \<and>
   map position (stateComments (handleAddComment (js ''c1'') 7 (2, 6)
       \<lparr>stateDoc = docOf [para [Text (js ''ab'') []], para [Text (js ''cd'') []]],
        stateComments = []\<rparr>))
     = [Some (offsetPosition 2 6 (js ''b c''))]"
proof -
  let ?d = "docOf [para [Text (js ''ab'') []], para [Text (js ''cd'') []]]"
  let ?st = "handleAddComment (js ''c1'') 7 (2, 6) \<lparr>stateDoc = ?d, stateComments = []\<rparr>"
  have 1: "(2::nat) < 6" by simp
  have 2: "markableTextAt ?d 2 \<and> markableTextAt ?d (6 - 1)" by (simp add: docOf_def para_def js_def)
  have 4: "\<not> carriesMarker ?d (js ''c1'')"
    by (simp add: carriesMarker_def markerRuns_def descendants_def docOf_def para_def js_def)
  have 5: "js ''c1'' \<noteq> []" by (simp add: js_def)
  have doc: "stateDoc ?st
     = docOf [para [Text (js ''a'') [], Text (js ''b'') [CommentMark (Some (js ''c1''))]],
              para [Text (js ''c'') [CommentMark (Some (js ''c1''))], Text (js ''d'') []]]"
    by (simp add: handleAddComment_def applyCommentMarkToSelection_def setCommentMark_def
          docOf_def para_def js_def textPiece_def sliceStr_def addToSet_def Let_def)
  have frag: "textBetween ?d 2 6 (js '' '') = js ''b c''"
    by (simp add: textBetween_def docOf_def para_def js_def sliceStr_def)
  from offset_compute_resolve [OF 1 4 5 refl, of 7 "[]"] 2
  have m: "currentMarksInDoc (stateDoc ?st) (js ''c1'') = Some (2, 6)"
    and p: "position (last (stateComments ?st)) = Some (offsetPosition 2 6 (js ''b c''))"
    unfolding frag by (simp_all add: offsetPosition_def)
  have "length (stateComments ?st) = 1" by (simp add: handleAddComment_def Let_def)
  then obtain c where c: "stateComments ?st = [c]"
    by (cases "stateComments ?st") auto
  with p have "map position (stateComments ?st) = [Some (offsetPosition 2 6 (js ''b c''))]"
    by simp
  with m doc show ?thesis by simp
qed

text \<open>
  Two selections that do not begin and end on text that takes the mark. A hard break
  selected alone carries the marker, the scan finds no text leaf with it and the new
  comment is orphaned by the next run. On text that carries an excluding mark, here the
  inline code of the starter kit, no marker is attached at all.
\<close>

lemma offset_selection_without_markable_text:
  "currentMarksInDoc (stateDoc (handleAddComment (js ''c1'') 7 (3, 4)
       \<lparr>stateDoc = docOf [para [Text (js ''ab'') [], hardBreak [], Text (js ''cd'') []]],
        stateComments = []\<rparr>)) (js ''c1'') = None \<and>
   stateDoc (handleAddComment (js ''c1'') 7 (3, 4)
       \<lparr>stateDoc = docOf [para [Text (js ''ab'') [], hardBreak [], Text (js ''cd'') []]],
        stateComments = []\<rparr>)
     = docOf [para [Text (js ''ab'') [], hardBreak [CommentMark (Some (js ''c1''))],
                    Text (js ''cd'') []]] \<and>
   stateDoc (handleAddComment (js ''c1'') 7 (1, 3)
       \<lparr>stateDoc = docOf [para [Text (js ''ab'') [ExcludingMark (js ''code'')]]],
        stateComments = []\<rparr>)
     = docOf [para [Text (js ''ab'') [ExcludingMark (js ''code'')]]]"
  by (simp add: handleAddComment_def applyCommentMarkToSelection_def setCommentMark_def
        docOf_def para_def hardBreak_def js_def textPiece_def sliceStr_def addToSet_def Let_def
        currentMarksInDoc_def descendants_def)

text \<open>
  C1 as stated fails when the selection does not begin and end on text. With the whole
  document \<open><p>ab</p>\<close> selected (\<open>from = 0\<close>, \<open>to = 4 = docSize\<close>) the comment stores
  \<open>[0, 4)\<close>; the marker lies on the text leaf, \<open>[1, 3)\<close>, and the synchronizer rewrites the
  stored range to it and reports a change.
\<close>

theorem offset_compute_resolve_counterexample:
  "map position (stateComments (handleAddComment (js ''c1'') 7 (0, 4)
       \<lparr>stateDoc = docOf [para [Text (js ''ab'') []]], stateComments = []\<rparr>))
     = [Some (offsetPosition 0 4 (js ''ab''))] \<and>
   contentSize (docOf [para [Text (js ''ab'') []]]) = 4 \<and>
   map position (fst (syncCommentPositionsWithEditorState
       (stateDoc (handleAddComment (js ''c1'') 7 (0, 4)
          \<lparr>stateDoc = docOf [para [Text (js ''ab'') []]], stateComments = []\<rparr>))
       (stateComments (handleAddComment (js ''c1'') 7 (0, 4)
          \<lparr>stateDoc = docOf [para [Text (js ''ab'') []]], stateComments = []\<rparr>))))
     = [Some (offsetPosition 1 3 (js ''ab''))] \<and>
   snd (syncCommentPositionsWithEditorState
       (stateDoc (handleAddComment (js ''c1'') 7 (0, 4)
          \<lparr>stateDoc = docOf [para [Text (js ''ab'') []]], stateComments = []\<rparr>))
       (stateComments (handleAddComment (js ''c1'') 7 (0, 4)
          \<lparr>stateDoc = docOf [para [Text (js ''ab'') []]], stateComments = []\<rparr>)))"
  by (simp add: handleAddComment_def applyCommentMarkToSelection_def setCommentMark_def
        docOf_def para_def js_def textPiece_def sliceStr_def addToSet_def Let_def
        textBetween_def contentSize_def offsetPosition_def
        syncCommentPositionsWithEditorState_def syncComment_def currentMarksInDoc_def
        descendants_def isAlreadyOrphaned_def)

section \<open>The invariants are kept\<close>

lemma emptyTextFree_append [simp]:
  "emptyTextFree (xs @ ys) \<longleftrightarrow> emptyTextFree xs \<and> emptyTextFree ys"
  by (induction xs rule: emptyTextFree.induct) auto

lemma marksExclusive_append [simp]:
  "marksExclusive (xs @ ys) \<longleftrightarrow> marksExclusive xs \<and> marksExclusive ys"
  by (induction xs rule: marksExclusive.induct) auto

lemma emptyTextFree_textPiece [simp]: "emptyTextFree (textPiece s ms)"
  by (simp add: textPiece_def)

lemma marksExclusive_textPiece [simp]:
  "atMostOneCommentMark ms \<Longrightarrow> marksExclusive (textPiece s ms)"
  by (simp add: textPiece_def)

lemma atMostOne_addToSet:
  "atMostOneCommentMark ms \<Longrightarrow> atMostOneCommentMark (addToSet (CommentMark c) ms)"
  by (simp add: atMostOneCommentMark_def addToSet_def)

lemma atMostOne_removeCommentMarks:
  "atMostOneCommentMark (removeCommentMarks ms)"
  by (simp add: atMostOneCommentMark_def removeCommentMarks_def)

lemma emptyTextFree_markRange:
  "emptyTextFree ns \<Longrightarrow> emptyTextFree (markRange g chk a b ok pos ns)"
  by (induction g chk a b ok pos ns rule: markRange.induct) (simp_all del: nodeSize.simps(3))

lemma marksExclusive_markRange:
  assumes "\<And>ms. atMostOneCommentMark ms \<Longrightarrow> atMostOneCommentMark (g ms)"
  shows "marksExclusive ns \<Longrightarrow> marksExclusive (markRange g chk a b ok pos ns)"
  by (induction pos ns arbitrary: ok rule: nodesFrom.induct)
     (simp_all add: assms del: nodeSize.simps(3))

lemma setCommentMark_keeps_invariants:
  assumes "emptyTextFree (children d)" and "marksExclusive (children d)"
  shows "emptyTextFree (children (setCommentMark d a b cid)) \<and>
         marksExclusive (children (setCommentMark d a b cid))"
  using assms
  by (cases d) (simp_all add: setCommentMark_def emptyTextFree_markRange
        marksExclusive_markRange atMostOne_addToSet)

lemma removeMark_keeps_invariants:
  assumes "emptyTextFree (children d)" and "marksExclusive (children d)"
  shows "emptyTextFree (children (removeMark d a b)) \<and> marksExclusive (children (removeMark d a b))"
  using assms
  by (cases d) (simp_all add: emptyTextFree_markRange marksExclusive_markRange
        atMostOne_removeCommentMarks)

end
